theory Spec2Isabelle
  imports Main "HOL-Library.Word" "HOL-Library.Multiset"
begin

section \<open>Data model\<close>

text \<open>
  The visit manager of \<^verbatim>\<open>recent_visits.h\<close> and its implementation (the C part of
  \<^verbatim>\<open>src/cmd/main.go\<close>, lines 40 to 605), on an LP64 little-endian platform:
  \<^verbatim>\<open>size_t\<close>, \<^verbatim>\<open>time_t\<close> and \<^verbatim>\<open>long\<close> are 8 bytes, \<^verbatim>\<open>uint32_t\<close> is 4 bytes.

  A pointer array together with its element count is a list (the live slots, in slot
  order); the allocated number of slots is kept beside it, as the C structs do. Counts
  and capacities are natural numbers: the code never subtracts below zero on them before
  it has already read a dead slot, and such a read is a fault of the model. The products
  in the arguments of \<^verbatim>\<open>malloc\<close> and \<^verbatim>\<open>realloc\<close> (8 bytes per slot) are not modelled:
  an array is taken to have the slots asked for, which is so for capacities below
  \<open>2 ^ 61\<close>. A string buffer is the list of the bytes of its allocation, terminator
  included.
\<close>

type_synonym byte = "8 word"
type_synonym uint32_t = "32 word"

record timespec =
  tv_sec :: "64 word"
  tv_nsec :: "64 word"

record Visit =
  visit_id :: uint32_t
  url :: "byte list"
  text' :: "byte list"
  time :: timespec

record UserVisits =
  user_id :: uint32_t
  visits :: "Visit list"
  capacity :: nat

record VisitManager =
  users :: "UserVisits list"
  user_capacity :: nat
  max_visits :: nat
  path :: string

text \<open>
  Undefined behaviour of the C program is a value: a read of an array slot that holds no
  live pointer (never assigned, or at or past the element count), a store past the end
  of an array, and \<^verbatim>\<open>strlen\<close> on a buffer without terminator.
\<close>

datatype fault = ReadsDeadSlot | StoresPastEnd | NoTerminator

text \<open>
  What the program takes from its environment in one call: which allocations return
  \<^verbatim>\<open>NULL\<close> (each allocation site of the source is named), the wall clock, whether
  \<^verbatim>\<open>fopen(path, "wb")\<close> fails, and the element exchanges the C library's
  \<^verbatim>\<open>qsort\<close> performs (see \<open>sort_visits\<close>).
\<close>

datatype alloc_site =
    CreateManager | CreatePath | CreateUsers
  | LoadManager | LoadPath | LoadUsers
  | LoadUser nat | LoadUserVisits nat
  | LoadVisit nat nat | LoadUrl nat nat | LoadText nat nat
  | GrowUsers | NewUser | NewUserVisits
  | NewVisit | NewUrl | NewText | GrowVisits

record env =
  alloc_fails :: "alloc_site \<Rightarrow> bool"
  now :: timespec
  fopen_wb_fails :: bool
  exchanges :: "(nat \<times> nat) list"

text \<open>The file system: the content of the file at each path that can be opened for reading.\<close>

type_synonym disk = "string \<Rightarrow> byte list option"

section \<open>Helpers of the implementation\<close>

text \<open>\<^verbatim>\<open>find_user\<close> (lines 61-68): the first record with the id; the pointer it returns is
  the index of the record in the manager's array.\<close>

fun user_index :: "UserVisits list \<Rightarrow> uint32_t \<Rightarrow> nat option" where
  "user_index [] uid = None"
| "user_index (u # us) uid =
     (if user_id u = uid then Some 0 else map_option Suc (user_index us uid))"

definition find_user :: "VisitManager \<Rightarrow> uint32_t \<Rightarrow> nat option" where
  "find_user manager uid = user_index (users manager) uid"

text \<open>\<^verbatim>\<open>create_user\<close> (lines 71-88): two allocations, either may fail.\<close>

definition create_user ::
  "env \<Rightarrow> alloc_site \<Rightarrow> alloc_site \<Rightarrow> uint32_t \<Rightarrow> nat \<Rightarrow> UserVisits option" where
  "create_user e site_user site_visits uid initial_capacity =
     (if alloc_fails e site_user then None
      else if alloc_fails e site_visits then None
      else Some \<lparr>user_id = uid, visits = [], capacity = initial_capacity\<rparr>)"

text \<open>A C string argument is the bytes at the pointer; the string ends before the first
  zero byte. \<^verbatim>\<open>strdup\<close> allocates the string and its terminator; \<^verbatim>\<open>strlen\<close> on a buffer
  with no terminator reads past the buffer.\<close>

definition strdup :: "byte list \<Rightarrow> byte list" where
  "strdup s = takeWhile (\<lambda>c. c \<noteq> 0) s @ [0]"

definition strlen :: "byte list \<Rightarrow> nat option" where
  "strlen s = (if 0 \<in> set s then Some (length (takeWhile (\<lambda>c. c \<noteq> 0) s)) else None)"

text \<open>\<^verbatim>\<open>create_visit\<close> (lines 111-136): three allocations, then the current time.\<close>

definition create_visit :: "env \<Rightarrow> uint32_t \<Rightarrow> byte list \<Rightarrow> byte list \<Rightarrow> Visit option" where
  "create_visit e vid u t =
     (if alloc_fails e NewVisit then None
      else if alloc_fails e NewUrl then None
      else if alloc_fails e NewText then None
      else Some \<lparr>visit_id = vid, url = strdup u, text' = strdup t, time = now e\<rparr>)"

section \<open>The file format\<close>

text \<open>\<^verbatim>\<open>fwrite\<close> of an integer object writes its bytes, least significant first;
  \<^verbatim>\<open>fread\<close> of \<open>n\<close> bytes fails when fewer than \<open>n\<close> remain.\<close>

fun le_bytes :: "nat \<Rightarrow> nat \<Rightarrow> byte list" where
  "le_bytes 0 n = []"
| "le_bytes (Suc k) n = of_nat (n mod 256) # le_bytes k (n div 256)"

fun le_nat :: "byte list \<Rightarrow> nat" where
  "le_nat [] = 0"
| "le_nat (b # bs) = unat b + 256 * le_nat bs"

definition put_size_t :: "nat \<Rightarrow> byte list" where
  "put_size_t n = le_bytes 8 n"

definition put_uint32 :: "uint32_t \<Rightarrow> byte list" where
  "put_uint32 w = le_bytes 4 (unat w)"

definition put_timespec :: "timespec \<Rightarrow> byte list" where
  "put_timespec t = le_bytes 8 (unat (tv_sec t)) @ le_bytes 8 (unat (tv_nsec t))"

definition fread :: "nat \<Rightarrow> byte list \<Rightarrow> (byte list \<times> byte list) option" where
  "fread n s = (if n \<le> length s then Some (take n s, drop n s) else None)"

text \<open>\<^verbatim>\<open>serialize_manager\<close> (lines 139-184). \<open>file_image\<close> is the byte sequence its
  \<^verbatim>\<open>fwrite\<close> calls produce, in order.\<close>

definition serialize_visit :: "Visit \<Rightarrow> byte list option" where
  "serialize_visit v =
     (case strlen (url v) of None \<Rightarrow> None
      | Some url_len \<Rightarrow>
         (case strlen (text' v) of None \<Rightarrow> None
          | Some text_len \<Rightarrow>
              Some (put_uint32 (visit_id v)
                    @ put_size_t (url_len + 1) @ take (url_len + 1) (url v)
                    @ put_size_t (text_len + 1) @ take (text_len + 1) (text' v)
                    @ put_timespec (time v))))"

fun serialize_visits :: "Visit list \<Rightarrow> byte list option" where
  "serialize_visits [] = Some []"
| "serialize_visits (v # vs) =
     (case serialize_visit v of None \<Rightarrow> None
      | Some b \<Rightarrow> (case serialize_visits vs of None \<Rightarrow> None | Some bs \<Rightarrow> Some (b @ bs)))"

definition serialize_user :: "UserVisits \<Rightarrow> byte list option" where
  "serialize_user u =
     (case serialize_visits (visits u) of None \<Rightarrow> None
      | Some b \<Rightarrow> Some (put_uint32 (user_id u) @ put_size_t (length (visits u)) @ b))"

fun serialize_users :: "UserVisits list \<Rightarrow> byte list option" where
  "serialize_users [] = Some []"
| "serialize_users (u # us) =
     (case serialize_user u of None \<Rightarrow> None
      | Some b \<Rightarrow> (case serialize_users us of None \<Rightarrow> None | Some bs \<Rightarrow> Some (b @ bs)))"

definition file_image :: "VisitManager \<Rightarrow> byte list option" where
  "file_image manager =
     (case serialize_users (users manager) of None \<Rightarrow> None
      | Some b \<Rightarrow>
          Some (put_size_t (max_visits manager) @ put_size_t (length (users manager)) @ b))"

definition serialize_manager :: "env \<Rightarrow> disk \<Rightarrow> VisitManager \<Rightarrow> fault + disk" where
  "serialize_manager e d manager =
     (if fopen_wb_fails e then Inr d
      else (case file_image manager of None \<Rightarrow> Inl NoTerminator
            | Some b \<Rightarrow> Inr (d(path manager \<mapsto> b))))"

section \<open>Adding a visit\<close>

text \<open>The first block of \<^verbatim>\<open>VisitManagerAddVisit\<close> (lines 405-426): find the record, or
  grow the array of records when it is full, create a record of capacity
  \<^verbatim>\<open>max_visits\<close> and store it in the next slot. The result is the manager as the block
  leaves it and the record's index, or no index where the source returns false.\<close>

definition find_or_create_user ::
  "env \<Rightarrow> VisitManager \<Rightarrow> uint32_t \<Rightarrow> fault + (VisitManager \<times> nat option)" where
  "find_or_create_user e manager uid =
     (case find_user manager uid of
        Some i \<Rightarrow> Inr (manager, Some i)
      | None \<Rightarrow>
          if user_capacity manager \<le> length (users manager) \<and> alloc_fails e GrowUsers
          then Inr (manager, None)
          else
            let m1 = (if user_capacity manager \<le> length (users manager)
                      then manager\<lparr>user_capacity := user_capacity manager * 2\<rparr>
                      else manager)
            in (case create_user e NewUser NewUserVisits uid (max_visits m1) of
                  None \<Rightarrow> Inr (m1, None)
                | Some user \<Rightarrow>
                    if user_capacity m1 \<le> length (users m1) then Inl StoresPastEnd
                    else Inr (m1\<lparr>users := users m1 @ [user]\<rparr>, Some (length (users m1)))))"

text \<open>The timestamp comparison of the eviction scan (lines 449-451): seconds, then
  nanoseconds, both signed.\<close>

definition older :: "timespec \<Rightarrow> timespec \<Rightarrow> bool" where
  "older a b = (tv_sec a <s tv_sec b \<or> (tv_sec a = tv_sec b \<and> tv_nsec a <s tv_nsec b))"

text \<open>The scan for the oldest visit (lines 448-455), from slot \<open>i\<close> on.\<close>

fun oldest_scan :: "Visit list \<Rightarrow> nat \<Rightarrow> nat \<Rightarrow> timespec \<Rightarrow> nat" where
  "oldest_scan [] i oldest_idx oldest_time = oldest_idx"
| "oldest_scan (v # vs) i oldest_idx oldest_time =
     (if older (time v) oldest_time then oldest_scan vs (Suc i) i (time v)
      else oldest_scan vs (Suc i) oldest_idx oldest_time)"

text \<open>Removal of slot \<open>j\<close> (lines 461-465 and 563-568): the last live slot is copied into
  slot \<open>j\<close> unless \<open>j\<close> is the last one, and the count drops by one.\<close>

definition swap_pop :: "Visit list \<Rightarrow> nat \<Rightarrow> Visit list" where
  "swap_pop vs j =
     butlast (if j < length vs - 1 then vs[j := vs ! (length vs - 1)] else vs)"

text \<open>The eviction block (lines 443-466). It reads slot 0 before looking at the count.\<close>

definition evict_oldest :: "Visit list \<Rightarrow> fault + Visit list" where
  "evict_oldest vs =
     (case vs of
        [] \<Rightarrow> Inl ReadsDeadSlot
      | v # rest \<Rightarrow> Inr (swap_pop vs (oldest_scan rest 1 0 (time v))))"

text \<open>\<^verbatim>\<open>VisitManagerAddVisit\<close> (lines 399-492) on a manager, a URL and a text that are not
  \<^verbatim>\<open>NULL\<close>: the value returned, the manager and the file system afterwards.\<close>

definition add_visit ::
  "env \<Rightarrow> disk \<Rightarrow> VisitManager \<Rightarrow> uint32_t \<Rightarrow> uint32_t \<Rightarrow> byte list \<Rightarrow> byte list
     \<Rightarrow> fault + (bool \<times> VisitManager \<times> disk)" where
  "add_visit e d manager uid vid u t =
     (case find_or_create_user e manager uid of
        Inl f \<Rightarrow> Inl f
      | Inr (m1, None) \<Rightarrow> Inr (False, m1, d)
      | Inr (m1, Some i) \<Rightarrow>
          let user = users m1 ! i in
          if (\<exists>v \<in> set (visits user). visit_id v = vid) then Inr (True, m1, d)
          else
            (case create_visit e vid u t of
               None \<Rightarrow> Inr (False, m1, d)
             | Some visit \<Rightarrow>
                 (case (if max_visits m1 \<le> length (visits user)
                        then evict_oldest (visits user) else Inr (visits user)) of
                    Inl f \<Rightarrow> Inl f
                  | Inr vs1 \<Rightarrow>
                      if capacity user \<le> length vs1 \<and> alloc_fails e GrowVisits
                      then Inr (False, m1\<lparr>users := (users m1)[i := user\<lparr>visits := vs1\<rparr>]\<rparr>, d)
                      else
                        let new_capacity =
                              (if capacity user \<le> length vs1
                               then min (capacity user * 2) (max_visits m1)
                               else capacity user)
                        in if new_capacity \<le> length vs1 then Inl StoresPastEnd
                           else
                             let m3 = m1\<lparr>users := (users m1)
                                        [i := user\<lparr>visits := vs1 @ [visit],
                                                    capacity := new_capacity\<rparr>]\<rparr>
                             in (case serialize_manager e d m3 of
                                   Inl f \<Rightarrow> Inl f
                                 | Inr d' \<Rightarrow> Inr (True, m3, d')))))"

definition VisitManagerAddVisit ::
  "env \<Rightarrow> disk \<Rightarrow> VisitManager option \<Rightarrow> uint32_t \<Rightarrow> uint32_t \<Rightarrow> byte list option
     \<Rightarrow> byte list option \<Rightarrow> fault + (bool \<times> VisitManager option \<times> disk)" where
  "VisitManagerAddVisit e d manager uid vid u t =
     (case (manager, u, t) of
        (Some m, Some u', Some t') \<Rightarrow>
          (case add_visit e d m uid vid u' t' of
             Inl f \<Rightarrow> Inl f
           | Inr (r, m', d') \<Rightarrow> Inr (r, Some m', d'))
      | _ \<Rightarrow> Inr (False, manager, d))"

section \<open>Recent visits\<close>

text \<open>
  \<^verbatim>\<open>compare_visits\<close> (lines 495-513) is the comparison function handed to
  \<^verbatim>\<open>qsort\<close>, which calls it with the addresses of two elements of the array, that is
  of two slots holding a \<^verbatim>\<open>Visit*\<close>. The function casts each address to
  \<^verbatim>\<open>Visit*\<close> itself and takes \<^verbatim>\<open>->time\<close>: it reads the two 8-byte words at byte
  offsets 24 (\<^verbatim>\<open>tv_sec\<close>) and 32 (\<^verbatim>\<open>tv_nsec\<close>) from the slot, \<^verbatim>\<open>offsetof(Visit, time)\<close>
  being 24. A memory is the 8-byte word stored at each byte address.
\<close>

type_synonym memory = "64 word \<Rightarrow> 64 word"

definition compare_visits :: "memory \<Rightarrow> 64 word \<Rightarrow> 64 word \<Rightarrow> int" where
  "compare_visits mem a b =
     (let time1 = a + 24; time2 = b + 24 in
      if mem time2 <s mem time1 then - 1
      else if mem time1 <s mem time2 then 1
      else if mem (time2 + 8) <s mem (time1 + 8) then - 1
      else if mem (time1 + 8) <s mem (time2 + 8) then 1
      else 0)"

text \<open>
  \<^verbatim>\<open>sort_visits\<close> (lines 516-518) hands the array to \<^verbatim>\<open>qsort\<close> with that comparison.
  The verdicts depend on the words stored 3 and 4 slots after the compared ones, not on
  the visits, so the order \<^verbatim>\<open>qsort\<close> leaves is an input of the model: the exchanges of
  two slots it performs on the live part of the array, in order.
\<close>

definition exchange :: "Visit list \<Rightarrow> nat \<times> nat \<Rightarrow> Visit list" where
  "exchange vs p =
     (if fst p < length vs \<and> snd p < length vs
      then vs[fst p := vs ! snd p, snd p := vs ! fst p] else vs)"

definition sort_visits :: "env \<Rightarrow> Visit list \<Rightarrow> Visit list" where
  "sort_visits e vs = foldl exchange vs (exchanges e)"

text \<open>\<^verbatim>\<open>VisitManagerGetRecentVisits\<close> (lines 520-536): the array returned (\<open>None\<close> is
  \<^verbatim>\<open>NULL\<close>), the value stored through \<^verbatim>\<open>count\<close> (\<open>None\<close>: nothing is stored), and the
  manager afterwards. \<open>count_given\<close> says that \<^verbatim>\<open>count\<close> is not \<^verbatim>\<open>NULL\<close>.\<close>

definition VisitManagerGetRecentVisits ::
  "env \<Rightarrow> VisitManager option \<Rightarrow> uint32_t \<Rightarrow> bool
     \<Rightarrow> Visit list option \<times> nat option \<times> VisitManager option" where
  "VisitManagerGetRecentVisits e manager uid count_given =
     (case manager of
        None \<Rightarrow> (None, None, manager)
      | Some m \<Rightarrow>
          if \<not> count_given then (None, None, manager)
          else
            (case find_user m uid of
               None \<Rightarrow> (None, Some 0, manager)
             | Some i \<Rightarrow>
                 let user = users m ! i;
                     sorted_visits = sort_visits e (visits user)
                 in (Some sorted_visits, Some (length (visits user)),
                     Some (m\<lparr>users := (users m)[i := user\<lparr>visits := sorted_visits\<rparr>]\<rparr>))))"

section \<open>Deleting and clearing\<close>

text \<open>The inner loop of \<^verbatim>\<open>VisitManagerDelete\<close> (lines 556-572): the first slot with the
  id.\<close>

fun find_visit :: "Visit list \<Rightarrow> uint32_t \<Rightarrow> nat option" where
  "find_visit [] vid = None"
| "find_visit (v # vs) vid =
     (if visit_id v = vid then Some 0 else map_option Suc (find_visit vs vid))"

text \<open>The outer loop (lines 552-573), with \<^verbatim>\<open>found_any\<close>.\<close>

fun delete_ids :: "uint32_t list \<Rightarrow> Visit list \<Rightarrow> bool \<Rightarrow> Visit list \<times> bool" where
  "delete_ids [] vs found_any = (vs, found_any)"
| "delete_ids (id_to_delete # ids) vs found_any =
     (case find_visit vs id_to_delete of
        None \<Rightarrow> delete_ids ids vs found_any
      | Some j \<Rightarrow> delete_ids ids (swap_pop vs j) True)"

text \<open>\<^verbatim>\<open>VisitManagerDelete\<close> (lines 538-582). The id array and its length are one list;
  \<open>None\<close> is the \<^verbatim>\<open>NULL\<close> array.\<close>

definition VisitManagerDelete ::
  "env \<Rightarrow> disk \<Rightarrow> VisitManager option \<Rightarrow> uint32_t \<Rightarrow> uint32_t list option
     \<Rightarrow> fault + (bool \<times> VisitManager option \<times> disk)" where
  "VisitManagerDelete e d manager uid visitIds =
     (case (manager, visitIds) of
        (Some m, Some ids) \<Rightarrow>
          if ids = [] then Inr (False, manager, d)
          else
            (case find_user m uid of
               None \<Rightarrow> Inr (False, manager, d)
             | Some i \<Rightarrow>
                 let user = users m ! i;
                     r = delete_ids ids (visits user) False;
                     m' = m\<lparr>users := (users m)[i := user\<lparr>visits := fst r\<rparr>]\<rparr>
                 in if snd r
                    then (case serialize_manager e d m' of
                            Inl f \<Rightarrow> Inl f
                          | Inr d' \<Rightarrow> Inr (True, Some m', d'))
                    else Inr (False, Some m', d))
      | _ \<Rightarrow> Inr (False, manager, d))"

text \<open>\<^verbatim>\<open>VisitManagerClear\<close> (lines 584-605).\<close>

definition VisitManagerClear ::
  "env \<Rightarrow> disk \<Rightarrow> VisitManager option \<Rightarrow> uint32_t \<Rightarrow> fault + (VisitManager option \<times> disk)" where
  "VisitManagerClear e d manager uid =
     (case manager of
        None \<Rightarrow> Inr (manager, d)
      | Some m \<Rightarrow>
          (case find_user m uid of
             None \<Rightarrow> Inr (manager, d)
           | Some i \<Rightarrow>
               let m' = m\<lparr>users := (users m)[i := (users m ! i)\<lparr>visits := []\<rparr>]\<rparr>
               in (case serialize_manager e d m' of
                     Inl f \<Rightarrow> Inl f
                   | Inr d' \<Rightarrow> Inr (Some m', d'))))"

section \<open>Loading and creating\<close>

text \<open>The body of the visit loop of \<^verbatim>\<open>deserialize_manager\<close> (lines 256-314) for visit
  \<open>j\<close> of user \<open>i\<close>: the visit read and the rest of the stream, or \<open>None\<close> where the
  source jumps to \<^verbatim>\<open>cleanup\<close>.\<close>

definition read_visit :: "env \<Rightarrow> nat \<Rightarrow> nat \<Rightarrow> byte list \<Rightarrow> (Visit \<times> byte list) option" where
  "read_visit e i j s =
     (if alloc_fails e (LoadVisit i j) then None
      else case fread 4 s of None \<Rightarrow> None
      | Some (id_bytes, s1) \<Rightarrow>
      (case fread 8 s1 of None \<Rightarrow> None
       | Some (url_len, s2) \<Rightarrow>
       if alloc_fails e (LoadUrl i j) then None
       else (case fread (le_nat url_len) s2 of None \<Rightarrow> None
        | Some (url_bytes, s3) \<Rightarrow>
        (case fread 8 s3 of None \<Rightarrow> None
         | Some (text_len, s4) \<Rightarrow>
         if alloc_fails e (LoadText i j) then None
         else (case fread (le_nat text_len) s4 of None \<Rightarrow> None
          | Some (text_bytes, s5) \<Rightarrow>
          (case fread 16 s5 of None \<Rightarrow> None
           | Some (time_bytes, s6) \<Rightarrow>
               Some (\<lparr>visit_id = of_nat (le_nat id_bytes),
                      url = url_bytes,
                      text' = text_bytes,
                      time = \<lparr>tv_sec = of_nat (le_nat (take 8 time_bytes)),
                              tv_nsec = of_nat (le_nat (drop 8 time_bytes))\<rparr>\<rparr>,
                     s6)))))))"

text \<open>The visit loop (lines 255-324), \<open>n\<close> visits from visit \<open>j\<close> on: a visit is kept
  while \<open>j < max_visits\<close> and dropped otherwise.\<close>

fun read_visits ::
  "env \<Rightarrow> nat \<Rightarrow> nat \<Rightarrow> nat \<Rightarrow> nat \<Rightarrow> byte list \<Rightarrow> Visit list
     \<Rightarrow> (Visit list \<times> byte list) option" where
  "read_visits e mv i j 0 s kept = Some (kept, s)"
| "read_visits e mv i j (Suc n) s kept =
     (case read_visit e i j s of
        None \<Rightarrow> None
      | Some (v, s') \<Rightarrow> read_visits e mv i (Suc j) n s' (if j < mv then kept @ [v] else kept))"

text \<open>One round of the user loop (lines 236-324). \<open>Cleanup assigned\<close> is the jump to
  \<^verbatim>\<open>cleanup\<close>, with whether \<^verbatim>\<open>manager->users[i]\<close> had been assigned before it.\<close>

datatype 'a load = Cleanup bool | Loaded 'a

definition read_user :: "env \<Rightarrow> nat \<Rightarrow> nat \<Rightarrow> byte list \<Rightarrow> (UserVisits \<times> byte list) load" where
  "read_user e mv i s =
     (case fread 4 s of None \<Rightarrow> Cleanup False
      | Some (uid_bytes, s1) \<Rightarrow>
      (case fread 8 s1 of None \<Rightarrow> Cleanup False
       | Some (count_bytes, s2) \<Rightarrow>
         let visit_count = le_nat count_bytes in
         (case create_user e (LoadUser i) (LoadUserVisits i) (of_nat (le_nat uid_bytes))
                 (if 0 < visit_count then visit_count else 10) of
            None \<Rightarrow> Cleanup False
          | Some user \<Rightarrow>
              (case read_visits e mv i 0 visit_count s2 [] of
                 None \<Rightarrow> Cleanup True
               | Some (vs, s3) \<Rightarrow> Loaded (user\<lparr>visits := vs\<rparr>, s3)))))"

text \<open>
  The user loop (lines 235-325), \<open>n\<close> users from user \<open>i\<close> on, and the \<^verbatim>\<open>cleanup\<close> block
  (lines 330-342). The array \<^verbatim>\<open>manager->users\<close> comes from \<^verbatim>\<open>malloc\<close> and is never
  cleared; \<^verbatim>\<open>cleanup\<close> reads all \<^verbatim>\<open>user_count\<close> slots of it and frees what each non-null
  one points to. It reads assigned slots only when the jump comes from the visit loop of
  the last user.
\<close>

fun read_users ::
  "env \<Rightarrow> nat \<Rightarrow> nat \<Rightarrow> nat \<Rightarrow> byte list \<Rightarrow> UserVisits list
     \<Rightarrow> fault + UserVisits list option" where
  "read_users e mv i 0 s loaded = Inr (Some loaded)"
| "read_users e mv i (Suc n) s loaded =
     (case read_user e mv i s of
        Cleanup assigned \<Rightarrow> if assigned \<and> n = 0 then Inr None else Inl ReadsDeadSlot
      | Loaded (u, s') \<Rightarrow> read_users e mv (Suc i) n s' (loaded @ [u]))"

text \<open>\<^verbatim>\<open>deserialize_manager\<close> (lines 187-343): \<open>Inr None\<close> is the \<^verbatim>\<open>NULL\<close> result.\<close>

definition deserialize_manager ::
  "env \<Rightarrow> disk \<Rightarrow> string \<Rightarrow> nat \<Rightarrow> fault + VisitManager option" where
  "deserialize_manager e d p mv =
     (case d p of
        None \<Rightarrow> Inr None
      | Some s \<Rightarrow>
          if alloc_fails e LoadManager then Inr None
          else if alloc_fails e LoadPath then Inr None
          else (case fread 8 s of None \<Rightarrow> Inr None
           | Some (stored_max_visits, s1) \<Rightarrow>
           (case fread 8 s1 of None \<Rightarrow> Inr None
            | Some (count_bytes, s2) \<Rightarrow>
              let user_count = le_nat count_bytes in
              if alloc_fails e LoadUsers then Inr None
              else (case read_users e mv 0 user_count s2 [] of
                      Inl f \<Rightarrow> Inl f
                    | Inr None \<Rightarrow> Inr None
                    | Inr (Some us) \<Rightarrow>
                        Inr (Some \<lparr>users = us,
                                   user_capacity = (if 0 < user_count then user_count else 10),
                                   max_visits = mv,
                                   path = p\<rparr>)))))"

text \<open>\<^verbatim>\<open>VisitManagerCreate\<close> (lines 345-381).\<close>

definition VisitManagerCreate ::
  "env \<Rightarrow> disk \<Rightarrow> string \<Rightarrow> nat \<Rightarrow> fault + VisitManager option" where
  "VisitManagerCreate e d p mv =
     (case (if d p = None then Inr None else deserialize_manager e d p mv) of
        Inl f \<Rightarrow> Inl f
      | Inr (Some manager) \<Rightarrow> Inr (Some manager)
      | Inr None \<Rightarrow>
          if alloc_fails e CreateManager then Inr None
          else if alloc_fails e CreatePath then Inr None
          else if alloc_fails e CreateUsers then Inr None
          else Inr (Some \<lparr>users = [], user_capacity = 10, max_visits = mv, path = p\<rparr>))"

section \<open>Sequences of calls\<close>

text \<open>A call of the interface on a manager, with the environment it runs in, and the
  state (manager and file system) after a sequence of calls.\<close>

datatype call =
    AddVisit env uint32_t uint32_t "byte list" "byte list"
  | Delete env uint32_t "uint32_t list"
  | Clear env uint32_t
  | GetRecentVisits env uint32_t

fun step :: "VisitManager \<times> disk \<Rightarrow> call \<Rightarrow> fault + (VisitManager \<times> disk)" where
  "step (m, d) (AddVisit e uid vid u t) =
     (case VisitManagerAddVisit e d (Some m) uid vid (Some u) (Some t) of
        Inl f \<Rightarrow> Inl f
      | Inr (r, m', d') \<Rightarrow> Inr (case m' of None \<Rightarrow> m | Some m'' \<Rightarrow> m'', d'))"
| "step (m, d) (Delete e uid ids) =
     (case VisitManagerDelete e d (Some m) uid (Some ids) of
        Inl f \<Rightarrow> Inl f
      | Inr (r, m', d') \<Rightarrow> Inr (case m' of None \<Rightarrow> m | Some m'' \<Rightarrow> m'', d'))"
| "step (m, d) (Clear e uid) =
     (case VisitManagerClear e d (Some m) uid of
        Inl f \<Rightarrow> Inl f
      | Inr (m', d') \<Rightarrow> Inr (case m' of None \<Rightarrow> m | Some m'' \<Rightarrow> m'', d'))"
| "step (m, d) (GetRecentVisits e uid) =
     (case VisitManagerGetRecentVisits e (Some m) uid True of
        (r, c, m') \<Rightarrow> Inr (case m' of None \<Rightarrow> m | Some m'' \<Rightarrow> m'', d))"

fun run :: "VisitManager \<times> disk \<Rightarrow> call list \<Rightarrow> fault + (VisitManager \<times> disk)" where
  "run st [] = Inr st"
| "run st (c # cs) = (case step st c of Inl f \<Rightarrow> Inl f | Inr st' \<Rightarrow> run st' cs)"

section \<open>Well-formed states and example data\<close>

text \<open>A visit whose two buffers hold a terminator, and a manager all of whose visits do:
  the condition under which \<^verbatim>\<open>strlen\<close> in \<^verbatim>\<open>serialize_manager\<close> is defined.\<close>

definition terminated :: "Visit \<Rightarrow> bool" where
  "terminated v = (0 \<in> set (url v) \<and> 0 \<in> set (text' v))"

definition strings_terminated :: "VisitManager \<Rightarrow> bool" where
  "strings_terminated m = list_all (\<lambda>u. list_all terminated (visits u)) (users m)"

text \<open>The capacity invariant: no record holds more than \<^verbatim>\<open>max_visits\<close> visits.\<close>

definition within_capacity :: "VisitManager \<Rightarrow> bool" where
  "within_capacity m = list_all (\<lambda>u. length (visits u) \<le> max_visits m) (users m)"

text \<open>
  A sound manager: a positive capacity, room accounted for in both kinds of array, every
  record within its array and within \<^verbatim>\<open>max_visits\<close>, every string buffer terminated. A
  manager created without a file is sound, and the calls of the interface keep a manager
  sound and are defined on it.
\<close>

definition sound_user :: "nat \<Rightarrow> UserVisits \<Rightarrow> bool" where
  "sound_user mv u =
     (0 < capacity u \<and> length (visits u) \<le> capacity u \<and> length (visits u) \<le> mv
      \<and> list_all terminated (visits u))"

definition sound :: "VisitManager \<Rightarrow> bool" where
  "sound m =
     (0 < max_visits m \<and> 0 < user_capacity m \<and> length (users m) \<le> user_capacity m
      \<and> list_all (sound_user (max_visits m)) (users m))"

text \<open>The order on timestamps the claims speak of: seconds, then nanoseconds, both as
  signed numbers.\<close>

definition not_later :: "timespec \<Rightarrow> timespec \<Rightarrow> bool" where
  "not_later a b =
     (sint (tv_sec a) < sint (tv_sec b)
      \<or> (sint (tv_sec a) = sint (tv_sec b) \<and> sint (tv_nsec a) \<le> sint (tv_nsec b)))"

text \<open>The eviction step of \<open>add_visit\<close>: the live slots once room has been made.\<close>

definition room :: "VisitManager \<Rightarrow> UserVisits \<Rightarrow> fault + Visit list" where
  "room m1 user = (if max_visits m1 \<le> length (visits user)
                   then evict_oldest (visits user) else Inr (visits user))"

text \<open>An environment in which nothing fails, an empty file system, and small states.\<close>

definition quiet :: env where
  "quiet = \<lparr>alloc_fails = (\<lambda>site. False), now = \<lparr>tv_sec = 300, tv_nsec = 0\<rparr>,
            fopen_wb_fails = False, exchanges = []\<rparr>"

definition no_files :: disk where
  "no_files = (\<lambda>p. None)"

definition visit_a :: Visit where
  "visit_a = \<lparr>visit_id = 101, url = [0x61, 0], text' = [0x41, 0],
              time = \<lparr>tv_sec = 100, tv_nsec = 5\<rparr>\<rparr>"

definition visit_b :: Visit where
  "visit_b = \<lparr>visit_id = 102, url = [0x62, 0], text' = [0x42, 0],
              time = \<lparr>tv_sec = 200, tv_nsec = 0\<rparr>\<rparr>"

definition two_visits :: VisitManager where
  "two_visits = \<lparr>users = [\<lparr>user_id = 1, visits = [visit_a, visit_b], capacity = 2\<rparr>],
                 user_capacity = 10, max_visits = 2, path = ''rv.dat''\<rparr>"

definition emptied_record :: VisitManager where
  "emptied_record = \<lparr>users = [\<lparr>user_id = 1, visits = [], capacity = 2\<rparr>],
                     user_capacity = 10, max_visits = 2, path = ''rv.dat''\<rparr>"

definition fresh_manager :: VisitManager where
  "fresh_manager = \<lparr>users = [], user_capacity = 10, max_visits = 2, path = ''rv.dat''\<rparr>"

definition fresh_at_zero :: VisitManager where
  "fresh_at_zero = \<lparr>users = [], user_capacity = 10, max_visits = 0, path = ''rv.dat''\<rparr>"

text \<open>
  The memory of a record of capacity 5 whose array is at address \<open>0x1000\<close>, after five
  visits with the ids 1 to 5 and increasing times were added, their structs allocated at
  \<open>0x5000\<close>, \<open>0x5040\<close>, \<open>0x5080\<close>, \<open>0x50C0\<close> and \<open>0x5100\<close>, and the ids 1, 2 and 3
  were deleted in one call: slots 0 and 1 are live and point to visit 5 (\<^verbatim>\<open>tv_sec\<close> 105)
  and visit 4 (\<^verbatim>\<open>tv_sec\<close> 104); slots 2, 3 and 4 keep the pointers to the visits 3, 4 and 5
  they held before.
\<close>

definition after_three_deletes :: memory where
  "after_three_deletes = (\<lambda>a. 0)
     (0x1000 := 0x5100, 0x1008 := 0x50C0, 0x1010 := 0x5080, 0x1018 := 0x50C0,
      0x1020 := 0x5100, 0x50D8 := 104, 0x5118 := 105)"

text \<open>A sequence of calls on one user, and a file that holds one user with one visit.\<close>

definition busy_calls :: "call list" where
  "busy_calls =
     [AddVisit quiet 1 101 [0x61] [0x41],
      AddVisit (quiet\<lparr>now := \<lparr>tv_sec = 301, tv_nsec = 0\<rparr>\<rparr>) 1 102 [0x62] [0x42],
      AddVisit (quiet\<lparr>now := \<lparr>tv_sec = 302, tv_nsec = 0\<rparr>\<rparr>) 1 103 [0x63] [0x43],
      GetRecentVisits quiet 1,
      Delete quiet 1 [103],
      Clear quiet 1]"

definition one_visit_file :: "byte list" where
  "one_visit_file =
     [5, 0, 0, 0, 0, 0, 0, 0,   1, 0, 0, 0, 0, 0, 0, 0,
      1, 0, 0, 0,   1, 0, 0, 0, 0, 0, 0, 0,
      101, 0, 0, 0,
      2, 0, 0, 0, 0, 0, 0, 0,   0x61, 0,
      2, 0, 0, 0, 0, 0, 0, 0,   0x41, 0,
      100, 0, 0, 0, 0, 0, 0, 0,   5, 0, 0, 0, 0, 0, 0, 0]"

definition loaded_at_zero :: VisitManager where
  "loaded_at_zero = \<lparr>users = [\<lparr>user_id = 1, visits = [], capacity = 1\<rparr>],
                      user_capacity = 1, max_visits = 0, path = ''rv.dat''\<rparr>"

section \<open>The stored form of a manager\<close>

text \<open>The string a buffer holds: the bytes before the first zero byte.\<close>

definition c_string :: "byte list \<Rightarrow> byte list" where
  "c_string b = takeWhile (\<lambda>c. c \<noteq> 0) b"

text \<open>
  The file format as the specification lays it out: the capacity bound and the user count
  as 8-byte integers, then for every user the id (4 bytes), the visit count (8 bytes) and
  for every visit the id (4 bytes), the URL buffer and the text buffer, each after its
  length (8 bytes), and the timestamp (16 bytes).
\<close>

definition layout_visit :: "Visit \<Rightarrow> byte list" where
  "layout_visit v =
     put_uint32 (visit_id v)
     @ put_size_t (length (url v)) @ url v
     @ put_size_t (length (text' v)) @ text' v
     @ put_timespec (time v)"

definition layout_user :: "UserVisits \<Rightarrow> byte list" where
  "layout_user u =
     put_uint32 (user_id u) @ put_size_t (length (visits u))
     @ concat (map layout_visit (visits u))"

definition layout_file :: "nat \<Rightarrow> UserVisits list \<Rightarrow> byte list" where
  "layout_file capacity_bound us =
     put_size_t capacity_bound @ put_size_t (length us) @ concat (map layout_user us)"

text \<open>What the loader makes of a stored user under capacity \<open>mv\<close>: the first \<open>mv\<close>
  visits in file order, in an array of as many slots as the stored count (10 for none).\<close>

definition loaded_user :: "nat \<Rightarrow> UserVisits \<Rightarrow> UserVisits" where
  "loaded_user mv u =
     \<lparr>user_id = user_id u,
      visits = take mv (visits u),
      capacity = (if 0 < length (visits u) then length (visits u) else 10)\<rparr>"

text \<open>A visit and a user as \<^verbatim>\<open>serialize_manager\<close> writes them: each buffer up to and
  including its first terminator.\<close>

definition as_written :: "Visit \<Rightarrow> Visit" where
  "as_written v = v\<lparr>url := c_string (url v) @ [0], text' := c_string (text' v) @ [0]\<rparr>"

definition written_user :: "UserVisits \<Rightarrow> UserVisits" where
  "written_user u = u\<lparr>visits := map as_written (visits u)\<rparr>"

text \<open>Every buffer length is a value of \<^verbatim>\<open>size_t\<close>, and so is the size in bytes of every
  pointer array (8 bytes per element).\<close>

definition fits_visit :: "Visit \<Rightarrow> bool" where
  "fits_visit v = (length (url v) < 2 ^ 64 \<and> length (text' v) < 2 ^ 64)"

definition fits_user :: "UserVisits \<Rightarrow> bool" where
  "fits_user u = (length (visits u) < 2 ^ 61 \<and> list_all fits_visit (visits u))"

definition fits_size_t :: "UserVisits list \<Rightarrow> bool" where
  "fits_size_t us = (length us < 2 ^ 61 \<and> list_all fits_user us)"

text \<open>The content of a manager the round trip speaks of: user id, visit id, URL, text
  and timestamp of every stored visit.\<close>

definition tuples :: "VisitManager \<Rightarrow> (uint32_t \<times> uint32_t \<times> byte list \<times> byte list \<times> timespec) set" where
  "tuples m =
     set (concat (map (\<lambda>u. map (\<lambda>v. (user_id u, visit_id v, c_string (url v),
                                       c_string (text' v), time v)) (visits u))
                      (users m)))"

text \<open>Two stored users, the first with two visits.\<close>

definition two_users_stored :: "UserVisits list" where
  "two_users_stored =
     [\<lparr>user_id = 1, visits = [visit_b, visit_a], capacity = 2\<rparr>,
      \<lparr>user_id = 2, visits = [visit_a], capacity = 1\<rparr>]"

section \<open>Basic facts\<close>

lemma user_index_Some:
  "user_index us uid = Some i \<Longrightarrow> i < length us \<and> user_id (us ! i) = uid"
  by (induction us arbitrary: i) (auto split: if_splits)

lemma user_index_update_other:
  "i < length us \<Longrightarrow> user_id u' = user_id (us ! i)
   \<Longrightarrow> user_index (us[i := u']) uid' = user_index us uid'"
  by (induction us arbitrary: i) (auto split: if_splits nat.splits simp: nth_Cons')

lemma exchange_length: "length (exchange vs p) = length vs"
  by (simp add: exchange_def)

lemma foldl_exchange_length: "length (foldl exchange vs ps) = length vs"
  by (induction ps arbitrary: vs) (simp_all add: exchange_length)

lemma sort_visits_length: "length (sort_visits e vs) = length vs"
  by (simp add: sort_visits_def foldl_exchange_length)

lemma exchange_mset: "mset (exchange vs p) = mset vs"
  by (simp add: exchange_def mset_swap)

lemma foldl_exchange_mset: "mset (foldl exchange vs ps) = mset vs"
  by (induction ps arbitrary: vs) (simp_all add: exchange_mset)

lemma sort_visits_mset: "mset (sort_visits e vs) = mset vs"
  by (simp add: sort_visits_def foldl_exchange_mset)

lemma serialize_visits_Some:
  "list_all terminated vs \<Longrightarrow> \<exists>b. serialize_visits vs = Some b"
  by (induction vs) (auto simp: serialize_visit_def strlen_def terminated_def)

lemma serialize_users_Some:
  "list_all (\<lambda>u. list_all terminated (visits u)) us \<Longrightarrow> \<exists>b. serialize_users us = Some b"
proof (induction us)
  case Nil
  then show ?case by simp
next
  case (Cons u us)
  then obtain b where "serialize_visits (visits u) = Some b"
    using serialize_visits_Some by auto
  moreover from Cons obtain bs where "serialize_users us = Some bs" by auto
  ultimately show ?case by (simp add: serialize_user_def)
qed

lemma file_image_Some: "strings_terminated m \<Longrightarrow> \<exists>b. file_image m = Some b"
  using serialize_users_Some [of "users m"]
  by (auto simp: strings_terminated_def file_image_def)

lemma serialize_manager_defined:
  "strings_terminated m \<Longrightarrow> \<exists>d'. serialize_manager e d m = Inr d'"
  using file_image_Some [of m] by (auto simp: serialize_manager_def)

subsection \<open>Removal of slots\<close>

lemma find_visit_Some:
  "find_visit vs x = Some j \<Longrightarrow> j < length vs \<and> visit_id (vs ! j) = x"
  by (induction vs arbitrary: j) (auto split: if_splits)

lemma find_visit_None: "find_visit vs x = None \<longleftrightarrow> x \<notin> visit_id ` set vs"
  by (induction vs) auto

lemma swap_pop_mset:
  assumes "j < length vs"
  shows "mset (swap_pop vs j) = mset vs - {#vs ! j#}"
proof -
  from assms have ne: "vs \<noteq> []" by auto
  then have split: "vs = butlast vs @ [last vs]" by simp
  have last_nth: "vs ! (length vs - Suc 0) = last vs"
    using ne by (simp add: last_conv_nth)
  show ?thesis
  proof (cases "j < length vs - 1")
    case True
    then have j: "j < length (butlast vs)" by simp
    have "butlast (vs[j := last vs]) = (butlast vs)[j := last vs]"
      using True by (simp add: butlast_list_update)
    then have "mset (swap_pop vs j) = mset ((butlast vs)[j := last vs])"
      using True by (simp add: swap_pop_def last_nth)
    also have "\<dots> = add_mset (last vs) (mset (butlast vs) - {#butlast vs ! j#})"
      using j by (simp add: mset_update)
    also have "butlast vs ! j = vs ! j"
      using j by (simp add: nth_butlast)
    also have "add_mset (last vs) (mset (butlast vs) - {#vs ! j#}) = mset vs - {#vs ! j#}"
    proof -
      have "vs ! j \<in> set (butlast vs)"
        using j nth_butlast [of j vs] nth_mem [of j "butlast vs"] by simp
      then have "vs ! j \<in># mset (butlast vs)" by simp
      moreover have "mset vs = add_mset (last vs) (mset (butlast vs))"
        using split by (metis mset.simps(2) mset_append union_mset_add_mset_right add.right_neutral mset.simps(1))
      ultimately show ?thesis by simp
    qed
    finally show ?thesis .
  next
    case False
    with assms have jl: "j = length vs - 1" by simp
    have "mset vs = add_mset (last vs) (mset (butlast vs))"
      using split by (metis mset.simps(2) mset_append union_mset_add_mset_right add.right_neutral mset.simps(1))
    then show ?thesis
      using False jl last_nth by (simp add: swap_pop_def)
  qed
qed

lemma swap_pop_length: "vs \<noteq> [] \<Longrightarrow> length (swap_pop vs j) = length vs - 1"
  by (simp add: swap_pop_def)

lemma delete_ids_found_True: "snd (delete_ids ids vs True)"
  by (induction ids arbitrary: vs) (auto split: option.splits)

lemma delete_ids_found:
  "snd (delete_ids ids vs f) \<longleftrightarrow> f \<or> (\<exists>x \<in> set ids. x \<in> visit_id ` set vs)"
proof (induction ids arbitrary: vs f)
  case Nil
  then show ?case by simp
next
  case (Cons x ids)
  show ?case
  proof (cases "find_visit vs x")
    case None
    then have "x \<notin> visit_id ` set vs" by (simp add: find_visit_None)
    with None Cons.IH [of vs f] show ?thesis by auto
  next
    case (Some j)
    then have "x \<in> visit_id ` set vs"
      using find_visit_None [of vs x] by auto
    with Some show ?thesis by (simp add: delete_ids_found_True)
  qed
qed

lemma delete_ids_unfound:
  "\<not> snd (delete_ids ids vs f) \<Longrightarrow> fst (delete_ids ids vs f) = vs"
proof (induction ids arbitrary: vs f)
  case Nil
  then show ?case by simp
next
  case (Cons x ids)
  then show ?case
    by (cases "find_visit vs x") (auto simp: delete_ids_found_True)
qed

lemma filter_out_distinct_id:
  "distinct (map visit_id vs) \<Longrightarrow> j < length vs
   \<Longrightarrow> filter_mset (\<lambda>v. visit_id v \<noteq> visit_id (vs ! j)) (mset vs) = mset vs - {#vs ! j#}"
proof (induction vs arbitrary: j)
  case Nil
  then show ?case by simp
next
  case (Cons v vs)
  show ?case
  proof (cases j)
    case 0
    from Cons.prems have "visit_id v \<notin> visit_id ` set vs" by simp
    then have "\<forall>w \<in> set vs. visit_id w \<noteq> visit_id v" by (metis imageI)
    then have "filter_mset (\<lambda>w. visit_id w \<noteq> visit_id v) (mset vs) = mset vs"
      by (simp add: filter_mset_eq_conv)
    with 0 show ?thesis by simp
  next
    case (Suc k)
    with Cons.prems have k: "k < length vs" and d: "distinct (map visit_id vs)" by auto
    from Cons.prems k have ne: "visit_id v \<noteq> visit_id (vs ! k)" by auto
    have mem: "vs ! k \<in># mset vs" using k by simp
    from Cons.IH [OF d k] Suc ne mem show ?thesis by simp
  qed
qed

lemma swap_pop_distinct:
  assumes "distinct (map visit_id vs)" and "j < length vs"
  shows "distinct (map visit_id (swap_pop vs j))"
proof -
  have split: "vs = take j vs @ vs ! j # drop (Suc j) vs"
    using assms(2) by (rule id_take_nth_drop)
  then have "mset vs = add_mset (vs ! j) (mset (take j vs @ drop (Suc j) vs))"
    by (metis mset.simps(2) mset_append union_mset_add_mset_right)
  then have "mset (swap_pop vs j) = mset (take j vs @ drop (Suc j) vs)"
    using assms(2) by (simp add: swap_pop_mset)
  then have "mset (map visit_id (swap_pop vs j))
             = mset (map visit_id (take j vs @ drop (Suc j) vs))"
    by (metis mset_map)
  then have "distinct (map visit_id (swap_pop vs j))
             \<longleftrightarrow> distinct (map visit_id (take j vs @ drop (Suc j) vs))"
    by (rule mset_eq_imp_distinct_iff)
  moreover have "distinct (map visit_id (take j vs @ vs ! j # drop (Suc j) vs))"
    using assms(1) split by simp
  then have "distinct (map visit_id (take j vs @ drop (Suc j) vs))"
    by auto
  ultimately show ?thesis by simp
qed

lemma delete_ids_mset:
  "distinct (map visit_id vs)
   \<Longrightarrow> mset (fst (delete_ids ids vs f))
       = filter_mset (\<lambda>v. visit_id v \<notin> set ids) (mset vs)"
proof (induction ids arbitrary: vs f)
  case Nil
  then show ?case by simp
next
  case (Cons x ids)
  show ?case
  proof (cases "find_visit vs x")
    case None
    then have nx: "\<forall>v \<in> set vs. visit_id v \<noteq> x" by (auto simp: find_visit_None)
    have "filter_mset (\<lambda>v. visit_id v \<notin> set (x # ids)) (mset vs)
          = filter_mset (\<lambda>v. visit_id v \<notin> set ids) (mset vs)"
      using nx by (intro filter_mset_cong) auto
    with None Cons.IH [OF Cons.prems] show ?thesis by simp
  next
    case (Some j)
    then have j: "j < length vs" and idj: "visit_id (vs ! j) = x"
      using find_visit_Some by auto
    have d': "distinct (map visit_id (swap_pop vs j))"
      using Cons.prems j by (rule swap_pop_distinct)
    have "mset (fst (delete_ids (x # ids) vs f))
          = filter_mset (\<lambda>v. visit_id v \<notin> set ids) (mset vs - {#vs ! j#})"
      using Some Cons.IH [OF d'] j by (simp add: swap_pop_mset)
    also have "mset vs - {#vs ! j#} = filter_mset (\<lambda>v. visit_id v \<noteq> x) (mset vs)"
      using filter_out_distinct_id [OF Cons.prems j] idj by simp
    also have "filter_mset (\<lambda>v. visit_id v \<notin> set ids) (filter_mset (\<lambda>v. visit_id v \<noteq> x) (mset vs))
               = filter_mset (\<lambda>v. visit_id v \<notin> set (x # ids)) (mset vs)"
      by (simp add: filter_filter_mset)
    finally show ?thesis .
  qed
qed

lemma delete_ids_subset: "set (fst (delete_ids ids vs f)) \<subseteq> set vs"
proof (induction ids arbitrary: vs f)
  case Nil
  then show ?case by simp
next
  case (Cons x ids)
  show ?case
  proof (cases "find_visit vs x")
    case None
    with Cons.IH show ?thesis by simp
  next
    case (Some j)
    then have j: "j < length vs" using find_visit_Some by auto
    have "set (swap_pop vs j) \<subseteq> set vs"
      using swap_pop_mset [OF j] by (metis in_diffD mset_eq_setD set_mset_mset subsetI)
    with Some Cons.IH [of "swap_pop vs j" True] show ?thesis by auto
  qed
qed

lemma list_all_update: "list_all P xs \<Longrightarrow> P y \<Longrightarrow> list_all P (xs[i := y])"
  by (induction xs arbitrary: i) (auto split: nat.splits)

lemma list_all_subset: "set ys \<subseteq> set xs \<Longrightarrow> list_all P xs \<Longrightarrow> list_all P ys"
  by (auto simp: list_all_iff)

lemma strings_terminated_update:
  assumes "strings_terminated m" and "i < length (users m)"
    and "set vs' \<subseteq> set (visits (users m ! i))"
  shows "strings_terminated (m\<lparr>users := (users m)[i := (users m ! i)\<lparr>visits := vs'\<rparr>]\<rparr>)"
proof -
  from assms(1,2) have "list_all terminated (visits (users m ! i))"
    by (auto simp: strings_terminated_def list_all_iff)
  with assms(3) have "list_all terminated vs'" by (rule list_all_subset)
  with assms(1) show ?thesis
    by (simp add: strings_terminated_def list_all_update)
qed


subsection \<open>The capacity invariant\<close>

lemma read_visits_bound:
  "read_visits e mv i j n s kept = Some (vs, s') \<Longrightarrow> length kept \<le> j \<Longrightarrow> length kept \<le> mv
   \<Longrightarrow> length vs \<le> mv"
proof (induction n arbitrary: j s kept)
  case 0
  then show ?case by simp
next
  case (Suc n)
  from Suc.prems(1) obtain v s1 where
    rv: "read_visit e i j s = Some (v, s1)" and
    rest: "read_visits e mv i (Suc j) n s1 (if j < mv then kept @ [v] else kept) = Some (vs, s')"
    by (auto split: option.splits)
  show ?case
    using Suc.IH [OF rest] Suc.prems(2,3) by (auto split: if_splits)
qed

lemma read_user_bound:
  "read_user e mv i s = Loaded (u, s') \<Longrightarrow> length (visits u) \<le> mv"
  by (auto simp: read_user_def Let_def create_user_def split: option.splits if_splits
      dest!: read_visits_bound)

lemma read_users_bound:
  "read_users e mv i n s loaded = Inr (Some us)
   \<Longrightarrow> list_all (\<lambda>u. length (visits u) \<le> mv) loaded
   \<Longrightarrow> list_all (\<lambda>u. length (visits u) \<le> mv) us"
proof (induction n arbitrary: i s loaded)
  case 0
  then show ?case by simp
next
  case (Suc n)
  from Suc.prems(1) obtain u s1 where
    ru: "read_user e mv i s = Loaded (u, s1)" and
    rest: "read_users e mv (Suc i) n s1 (loaded @ [u]) = Inr (Some us)"
    by (auto split: load.splits if_splits)
  from ru have "length (visits u) \<le> mv" by (rule read_user_bound)
  with Suc.prems(2) have "list_all (\<lambda>u. length (visits u) \<le> mv) (loaded @ [u])" by simp
  with Suc.IH [OF rest] show ?case .
qed

lemma deserialize_within_capacity:
  "deserialize_manager e d p mv = Inr (Some m) \<Longrightarrow> max_visits m = mv \<and> within_capacity m"
  by (auto simp: deserialize_manager_def within_capacity_def Let_def
      split: option.splits if_splits sum.splits dest!: read_users_bound)

lemma create_within_capacity:
  "VisitManagerCreate e d p mv = Inr (Some m) \<Longrightarrow> max_visits m = mv \<and> within_capacity m"
  by (auto simp: VisitManagerCreate_def within_capacity_def
      split: option.splits if_splits sum.splits dest!: deserialize_within_capacity)

lemma add_visit_unfold:
  "add_visit e d m uid vid u t =
     (case find_or_create_user e m uid of
        Inl f \<Rightarrow> Inl f
      | Inr (m1, None) \<Rightarrow> Inr (False, m1, d)
      | Inr (m1, Some i) \<Rightarrow>
          if (\<exists>v \<in> set (visits (users m1 ! i)). visit_id v = vid) then Inr (True, m1, d)
          else
            (case create_visit e vid u t of
               None \<Rightarrow> Inr (False, m1, d)
             | Some visit \<Rightarrow>
                 (case room m1 (users m1 ! i) of
                    Inl f \<Rightarrow> Inl f
                  | Inr vs1 \<Rightarrow>
                      if capacity (users m1 ! i) \<le> length vs1 \<and> alloc_fails e GrowVisits
                      then Inr (False, m1\<lparr>users := (users m1)[i := (users m1 ! i)\<lparr>visits := vs1\<rparr>]\<rparr>, d)
                      else if (if capacity (users m1 ! i) \<le> length vs1
                               then min (capacity (users m1 ! i) * 2) (max_visits m1)
                               else capacity (users m1 ! i)) \<le> length vs1 then Inl StoresPastEnd
                      else (case serialize_manager e d
                                   (m1\<lparr>users := (users m1)
                                        [i := (users m1 ! i)\<lparr>visits := vs1 @ [visit],
                                           capacity := (if capacity (users m1 ! i) \<le> length vs1
                               then min (capacity (users m1 ! i) * 2) (max_visits m1)
                               else capacity (users m1 ! i))\<rparr>]\<rparr>) of
                              Inl f \<Rightarrow> Inl f
                            | Inr d' \<Rightarrow> Inr (True, m1\<lparr>users := (users m1)
                                        [i := (users m1 ! i)\<lparr>visits := vs1 @ [visit],
                                           capacity := (if capacity (users m1 ! i) \<le> length vs1
                               then min (capacity (users m1 ! i) * 2) (max_visits m1)
                               else capacity (users m1 ! i))\<rparr>]\<rparr>, d')))))"
  unfolding add_visit_def room_def Let_def ..

lemma add_visit_cases:
  assumes "add_visit e d m uid vid u t = Inr (r, m', d')"
  obtains
    (no_user) "find_or_create_user e m uid = Inr (m', None)" "\<not> r" "d' = d"
  | (duplicate) i where "find_or_create_user e m uid = Inr (m', Some i)"
      "\<exists>v \<in> set (visits (users m' ! i)). visit_id v = vid" "r" "d' = d"
  | (no_visit) i where "find_or_create_user e m uid = Inr (m', Some i)"
      "\<not> (\<exists>v \<in> set (visits (users m' ! i)). visit_id v = vid)"
      "create_visit e vid u t = None" "\<not> r" "d' = d"
  | (no_growth) m1 i visit vs1 where "find_or_create_user e m uid = Inr (m1, Some i)"
      "\<not> (\<exists>v \<in> set (visits (users m1 ! i)). visit_id v = vid)"
      "create_visit e vid u t = Some visit" "room m1 (users m1 ! i) = Inr vs1"
      "capacity (users m1 ! i) \<le> length vs1" "alloc_fails e GrowVisits"
      "m' = m1\<lparr>users := (users m1)[i := (users m1 ! i)\<lparr>visits := vs1\<rparr>]\<rparr>" "\<not> r" "d' = d"
  | (added) m1 i visit vs1 c where "find_or_create_user e m uid = Inr (m1, Some i)"
      "\<not> (\<exists>v \<in> set (visits (users m1 ! i)). visit_id v = vid)"
      "create_visit e vid u t = Some visit" "room m1 (users m1 ! i) = Inr vs1"
      "length vs1 < c"
      "m' = m1\<lparr>users := (users m1)[i := (users m1 ! i)\<lparr>visits := vs1 @ [visit], capacity := c\<rparr>]\<rparr>"
      "serialize_manager e d m' = Inr d'" "r"
proof (cases "find_or_create_user e m uid")
  case (Inl f)
  with assms show ?thesis by (simp add: add_visit_unfold)
next
  case (Inr res)
  obtain m1 io where res: "res = (m1, io)" by (cases res)
  show ?thesis
  proof (cases io)
    case None
    with Inr res assms no_user show ?thesis by (simp add: add_visit_unfold)
  next
    case (Some i)
    with Inr res have fc: "find_or_create_user e m uid = Inr (m1, Some i)" by simp
    show ?thesis
    proof (cases "\<exists>v \<in> set (visits (users m1 ! i)). visit_id v = vid")
      case True
      with fc assms duplicate [of i] show ?thesis by (simp add: add_visit_unfold)
    next
      case False
      note nodup = this
      show ?thesis
      proof (cases "create_visit e vid u t")
        case None
        with fc nodup assms no_visit [of i] show ?thesis by (simp add: add_visit_unfold)
      next
        case (Some visit)
        note cv = this
        show ?thesis
        proof (cases "room m1 (users m1 ! i)")
          case (Inl f)
          with fc nodup cv assms show ?thesis by (simp add: add_visit_unfold)
        next
          case (Inr vs1)
          note rm = this
          show ?thesis
          proof (cases "capacity (users m1 ! i) \<le> length vs1 \<and> alloc_fails e GrowVisits")
            case True
            with fc nodup cv rm assms no_growth [of m1 i visit vs1] show ?thesis
              by (simp add: add_visit_unfold)
          next
            case False
            define c where "c = (if capacity (users m1 ! i) \<le> length vs1
                               then min (capacity (users m1 ! i) * 2) (max_visits m1)
                               else capacity (users m1 ! i))"
            from False fc nodup cv rm assms have lt: "length vs1 < c"
              by (auto simp add: add_visit_unfold c_def split: if_splits)
            from lt False fc nodup cv rm assms have
              "m' = m1\<lparr>users := (users m1)[i := (users m1 ! i)\<lparr>visits := vs1 @ [visit], capacity := c\<rparr>]\<rparr>
               \<and> serialize_manager e d m' = Inr d' \<and> r"
              by (auto simp add: add_visit_unfold c_def split: sum.splits if_splits)
            then have A: "m' = m1\<lparr>users := (users m1)[i := (users m1 ! i)\<lparr>visits := vs1 @ [visit], capacity := c\<rparr>]\<rparr>"
              and B: "serialize_manager e d m' = Inr d'" and C: r
              by blast+
            show ?thesis
              by (rule added [OF fc nodup cv rm lt A B C])
          qed
        qed
      qed
    qed
  qed
qed

lemma within_capacity_update:
  assumes "within_capacity m" and "length vs' \<le> max_visits m"
  shows "within_capacity (m\<lparr>users := (users m)[i := u\<lparr>visits := vs', capacity := c\<rparr>]\<rparr>)"
    and "within_capacity (m\<lparr>users := (users m)[i := u\<lparr>visits := vs'\<rparr>]\<rparr>)"
  using assms by (simp_all add: within_capacity_def list_all_update)

lemma find_or_create_user_Some:
  assumes "find_or_create_user e m uid = Inr (m1, Some i)"
  shows "i < length (users m1)" and "max_visits m1 = max_visits m" and "path m1 = path m"
    and "within_capacity m \<Longrightarrow> within_capacity m1"
    and "user_id (users m1 ! i) = uid"
proof -
  show "i < length (users m1)"
    using assms user_index_Some [of "users m" uid i]
    by (auto simp: find_or_create_user_def find_user_def Let_def create_user_def
        split: option.splits if_splits)
  show "max_visits m1 = max_visits m"
    using assms
    by (auto simp: find_or_create_user_def Let_def create_user_def split: option.splits if_splits)
  show "path m1 = path m"
    using assms
    by (auto simp: find_or_create_user_def Let_def create_user_def split: option.splits if_splits)
  show "within_capacity m \<Longrightarrow> within_capacity m1"
    using assms
    by (auto simp: find_or_create_user_def Let_def create_user_def within_capacity_def
        split: option.splits if_splits)
  show "user_id (users m1 ! i) = uid"
    using assms user_index_Some [of "users m" uid i]
    by (auto simp: find_or_create_user_def find_user_def Let_def create_user_def nth_append
        split: option.splits if_splits)
qed

lemma find_or_create_user_None:
  assumes "find_or_create_user e m uid = Inr (m1, None)"
  shows "users m1 = users m" and "max_visits m1 = max_visits m" and "path m1 = path m"
  using assms
  by (auto simp: find_or_create_user_def Let_def create_user_def split: option.splits if_splits)

lemma evict_oldest_length:
  "evict_oldest vs = Inr vs1 \<Longrightarrow> vs \<noteq> [] \<and> length vs1 = length vs - 1"
  by (auto simp: evict_oldest_def swap_pop_length split: list.splits)

lemma room_length:
  "room m1 user = Inr vs1 \<Longrightarrow> length (visits user) \<le> max_visits m1
   \<Longrightarrow> length vs1 < max_visits m1 \<or> length vs1 < length (visits user)"
  using evict_oldest_length [of "visits user" vs1]
  by (auto simp: room_def split: if_splits)

lemma add_visit_within_capacity:
  assumes "add_visit e d m uid vid u t = Inr (r, m', d')" and "within_capacity m"
  shows "max_visits m' = max_visits m \<and> within_capacity m'"
  using assms(1)
proof (cases rule: add_visit_cases)
  case no_user
  with find_or_create_user_None [OF no_user(1)] assms(2) show ?thesis
    by (simp add: within_capacity_def)
next
  case (duplicate i)
  with find_or_create_user_Some [OF duplicate(1)] assms(2) show ?thesis by simp
next
  case (no_visit i)
  with find_or_create_user_Some [OF no_visit(1)] assms(2) show ?thesis by simp
next
  case (no_growth m1 i visit vs1)
  note facts = find_or_create_user_Some [OF no_growth(1)]
  have wc1: "within_capacity m1" using facts(4) assms(2) by simp
  have "length (visits (users m1 ! i)) \<le> max_visits m1"
    using wc1 facts(1) by (simp add: within_capacity_def list_all_iff)
  with room_length [OF no_growth(4)] have "length vs1 \<le> max_visits m1" by auto
  from within_capacity_update(2) [OF wc1 this] no_growth(7) facts(2) show ?thesis by simp
next
  case (added m1 i visit vs1 c)
  note facts = find_or_create_user_Some [OF added(1)]
  have wc1: "within_capacity m1" using facts(4) assms(2) by simp
  have "length (visits (users m1 ! i)) \<le> max_visits m1"
    using wc1 facts(1) by (simp add: within_capacity_def list_all_iff)
  with room_length [OF added(4)] have "length (vs1 @ [visit]) \<le> max_visits m1" by auto
  from within_capacity_update(1) [OF wc1 this] added(6) facts(2) show ?thesis by simp
qed

lemma delete_ids_length: "length (fst (delete_ids ids vs f)) \<le> length vs"
proof (induction ids arbitrary: vs f)
  case Nil
  then show ?case by simp
next
  case (Cons x ids)
  show ?case
  proof (cases "find_visit vs x")
    case None
    with Cons.IH show ?thesis by simp
  next
    case (Some j)
    then have "j < length vs" using find_visit_Some by blast
    then have "vs \<noteq> []" by auto
    then have "length (swap_pop vs j) \<le> length vs" by (simp add: swap_pop_length)
    with Some Cons.IH [of "swap_pop vs j" True] show ?thesis by simp
  qed
qed

lemma delete_within_capacity:
  assumes "VisitManagerDelete e d (Some m) uid (Some ids) = Inr (r, mo, d')"
    and "within_capacity m"
  shows "\<exists>m'. mo = Some m' \<and> max_visits m' = max_visits m \<and> within_capacity m'"
proof (cases "ids = [] \<or> find_user m uid = None")
  case True
  with assms show ?thesis by (auto simp: VisitManagerDelete_def split: if_splits)
next
  case False
  then obtain i where i: "find_user m uid = Some i" and ne: "ids \<noteq> []" by auto
  then have il: "i < length (users m)" using user_index_Some by (auto simp: find_user_def)
  define vs' where "vs' = fst (delete_ids ids (visits (users m ! i)) False)"
  have "length (visits (users m ! i)) \<le> max_visits m"
    using assms(2) il by (simp add: within_capacity_def list_all_iff)
  then have "length vs' \<le> max_visits m"
    using delete_ids_length [of ids "visits (users m ! i)" False] by (simp add: vs'_def)
  note wc = within_capacity_update(2) [OF assms(2) this, of i "users m ! i"]
  have "mo = Some (m\<lparr>users := (users m)[i := (users m ! i)\<lparr>visits := vs'\<rparr>]\<rparr>)"
    using assms(1) i ne
    by (simp add: VisitManagerDelete_def Let_def vs'_def split: if_splits sum.splits)
  with wc show ?thesis by simp
qed

lemma clear_within_capacity:
  assumes "VisitManagerClear e d (Some m) uid = Inr (mo, d')" and "within_capacity m"
  shows "\<exists>m'. mo = Some m' \<and> max_visits m' = max_visits m \<and> within_capacity m'"
proof (cases "find_user m uid")
  case None
  with assms show ?thesis by (auto simp: VisitManagerClear_def)
next
  case (Some i)
  note wc = within_capacity_update(2) [OF assms(2), of "[]" i "users m ! i"]
  have "mo = Some (m\<lparr>users := (users m)[i := (users m ! i)\<lparr>visits := []\<rparr>]\<rparr>)"
    using assms(1) Some by (simp add: VisitManagerClear_def Let_def split: sum.splits)
  with wc show ?thesis by simp
qed

lemma get_within_capacity:
  assumes "VisitManagerGetRecentVisits e (Some m) uid True = (r, c, mo)" and "within_capacity m"
  shows "\<exists>m'. mo = Some m' \<and> max_visits m' = max_visits m \<and> within_capacity m'"
proof (cases "find_user m uid")
  case None
  with assms show ?thesis by (auto simp: VisitManagerGetRecentVisits_def)
next
  case (Some i)
  then have il: "i < length (users m)" using user_index_Some by (auto simp: find_user_def)
  have "length (sort_visits e (visits (users m ! i))) \<le> max_visits m"
    using assms(2) il by (simp add: sort_visits_length within_capacity_def list_all_iff)
  note wc = within_capacity_update(2) [OF assms(2) this, of i "users m ! i"]
  have "mo = Some (m\<lparr>users := (users m)[i := (users m ! i)\<lparr>visits := sort_visits e (visits (users m ! i))\<rparr>]\<rparr>)"
    using assms(1) Some by (simp add: VisitManagerGetRecentVisits_def Let_def)
  with wc show ?thesis by simp
qed

lemma add_within_capacity:
  assumes "VisitManagerAddVisit e d (Some m) uid vid (Some u) (Some t) = Inr (r, mo, d')"
    and "within_capacity m"
  shows "\<exists>m'. mo = Some m' \<and> max_visits m' = max_visits m \<and> within_capacity m'"
proof -
  from assms(1) obtain m' where "mo = Some m'" and "add_visit e d m uid vid u t = Inr (r, m', d')"
    by (auto simp: VisitManagerAddVisit_def split: sum.splits)
  with add_visit_within_capacity [of e d m uid vid u t r m' d'] assms(2) show ?thesis by simp
qed

lemma step_within_capacity:
  assumes "step (m, d) c = Inr (m', d')" and "within_capacity m"
  shows "max_visits m' = max_visits m \<and> within_capacity m'"
proof (cases c)
  case (AddVisit e uid vid u t)
  obtain r mo d1 where res: "VisitManagerAddVisit e d (Some m) uid vid (Some u) (Some t) = Inr (r, mo, d1)"
    using assms(1) AddVisit by (auto split: sum.splits)
  from add_within_capacity [OF res assms(2)] obtain m1 where
    "mo = Some m1" "max_visits m1 = max_visits m" "within_capacity m1" by blast
  with res assms(1) AddVisit show ?thesis by simp
next
  case (Delete e uid ids)
  obtain r mo d1 where res: "VisitManagerDelete e d (Some m) uid (Some ids) = Inr (r, mo, d1)"
    using assms(1) Delete by (auto split: sum.splits)
  from delete_within_capacity [OF res assms(2)] obtain m1 where
    "mo = Some m1" "max_visits m1 = max_visits m" "within_capacity m1" by blast
  with res assms(1) Delete show ?thesis by simp
next
  case (Clear e uid)
  obtain mo d1 where res: "VisitManagerClear e d (Some m) uid = Inr (mo, d1)"
    using assms(1) Clear by (auto split: sum.splits)
  from clear_within_capacity [OF res assms(2)] obtain m1 where
    "mo = Some m1" "max_visits m1 = max_visits m" "within_capacity m1" by blast
  with res assms(1) Clear show ?thesis by simp
next
  case (GetRecentVisits e uid)
  obtain r k mo where res: "VisitManagerGetRecentVisits e (Some m) uid True = (r, k, mo)"
    by (cases "VisitManagerGetRecentVisits e (Some m) uid True")
  from get_within_capacity [OF res assms(2)] obtain m1 where
    "mo = Some m1" "max_visits m1 = max_visits m" "within_capacity m1" by blast
  with res assms(1) GetRecentVisits show ?thesis by simp
qed

lemma run_append:
  "run st (xs @ ys) = Inr r \<Longrightarrow> \<exists>st'. run st xs = Inr st' \<and> run st' ys = Inr r"
proof (induction xs arbitrary: st)
  case Nil
  then show ?case by simp
next
  case (Cons x xs)
  from Cons.prems obtain st1 where s: "step st x = Inr st1" and r: "run st1 (xs @ ys) = Inr r"
    by (cases "step st x") simp_all
  from Cons.IH [OF r] s show ?case by simp
qed

lemma run_within_capacity:
  "run (m, d) calls = Inr (m', d') \<Longrightarrow> within_capacity m
   \<Longrightarrow> max_visits m' = max_visits m \<and> within_capacity m'"
proof (induction calls arbitrary: m d)
  case Nil
  then show ?case by simp
next
  case (Cons c calls)
  from Cons.prems(1) obtain st1 where
    s: "step (m, d) c = Inr st1" and r: "run st1 calls = Inr (m', d')"
    by (cases "step (m, d) c") simp_all
  obtain m1 d1 where st1: "st1 = (m1, d1)" by (cases st1)
  from step_within_capacity [OF s [unfolded st1] Cons.prems(2)] Cons.IH [OF r [unfolded st1]]
  show ?case by simp
qed


subsection \<open>Evaluation\<close>

lemma serialize_manager_eq:
  "strings_terminated m
   \<Longrightarrow> serialize_manager e d m
       = Inr (if fopen_wb_fails e then d else d(path m \<mapsto> the (file_image m)))"
  using file_image_Some [of m] by (auto simp: serialize_manager_def)


subsection \<open>The eviction scan\<close>

lemma older_sint:
  "older a b \<longleftrightarrow> sint (tv_sec a) < sint (tv_sec b)
      \<or> (sint (tv_sec a) = sint (tv_sec b) \<and> sint (tv_nsec a) < sint (tv_nsec b))"
  by (auto simp: older_def word_sless_alt intro: signed_word_eqI)

lemma not_older_iff: "\<not> older b a \<longleftrightarrow> not_later a b"
  by (auto simp: older_sint not_later_def)

lemma older_trans: "older a b \<Longrightarrow> older b c \<Longrightarrow> older a c"
  by (auto simp: older_sint)

lemma older_irrefl: "\<not> older a a"
  by (simp add: older_sint)

lemma oldest_scan_min:
  assumes "idx < length seen" and "i = length seen" and "t = time (seen ! idx)"
    and "\<forall>v \<in> set seen. \<not> older (time v) t"
  shows "oldest_scan vs i idx t < length (seen @ vs)
         \<and> (\<forall>v \<in> set (seen @ vs). \<not> older (time v) (time ((seen @ vs) ! oldest_scan vs i idx t)))"
  using assms
proof (induction vs arbitrary: seen i idx t)
  case Nil
  then show ?case by simp
next
  case (Cons v vs)
  show ?case
  proof (cases "older (time v) t")
    case True
    have a1: "length seen < length (seen @ [v])" by simp
    have a2: "Suc i = length (seen @ [v])" using Cons.prems(2) by simp
    have a3: "time v = time ((seen @ [v]) ! length seen)" by simp
    have a4: "\<forall>w \<in> set (seen @ [v]). \<not> older (time w) (time v)"
      using Cons.prems(4) True older_trans older_irrefl by auto
    from Cons.IH [OF a1 a2 a3 a4] True Cons.prems(2) show ?thesis by simp
  next
    case False
    have a1: "idx < length (seen @ [v])" using Cons.prems(1) by simp
    have a2: "Suc i = length (seen @ [v])" using Cons.prems(2) by simp
    have a3: "t = time ((seen @ [v]) ! idx)"
      using Cons.prems(1,3) by (simp add: nth_append)
    have a4: "\<forall>w \<in> set (seen @ [v]). \<not> older (time w) t"
      using Cons.prems(4) False by auto
    from Cons.IH [OF a1 a2 a3 a4] False show ?thesis by simp
  qed
qed

lemma evict_oldest_min:
  assumes "vs \<noteq> []"
  shows "\<exists>k. k < length vs \<and> (\<forall>v \<in> set vs. not_later (time (vs ! k)) (time v))
             \<and> evict_oldest vs = Inr (swap_pop vs k)"
proof -
  from assms obtain v rest where vs: "vs = v # rest" by (cases vs) auto
  define k where "k = oldest_scan rest 1 0 (time v)"
  have "k < length ([v] @ rest)
        \<and> (\<forall>w \<in> set ([v] @ rest). \<not> older (time w) (time (([v] @ rest) ! k)))"
    unfolding k_def by (rule oldest_scan_min) (simp_all add: older_irrefl)
  then have "k < length vs \<and> (\<forall>w \<in> set vs. not_later (time (vs ! k)) (time w))"
    by (simp add: vs not_older_iff)
  moreover have "evict_oldest vs = Inr (swap_pop vs k)"
    by (simp add: evict_oldest_def vs k_def)
  ultimately show ?thesis by blast
qed

lemma swap_pop_alt:
  assumes "k < length vs"
  shows "swap_pop vs k = butlast (vs[k := last vs])"
proof (cases "k < length vs - 1")
  case True
  from assms have "vs \<noteq> []" by auto
  then have "vs ! (length vs - Suc 0) = last vs" by (simp add: last_conv_nth)
  with True show ?thesis by (simp add: swap_pop_def)
next
  case False
  with assms have k: "k = length vs - 1" by simp
  from assms have "vs \<noteq> []" by auto
  with k have "vs ! k = last vs" by (simp add: last_conv_nth)
  then have "vs[k := last vs] = vs" by (metis list_update_id)
  with False show ?thesis by (simp add: swap_pop_def)
qed

lemma strings_terminated_store:
  assumes "strings_terminated m" and "list_all terminated vs'"
  shows "strings_terminated (m\<lparr>users := (users m)[i := u\<lparr>visits := vs'\<rparr>]\<rparr>)"
  using assms by (simp add: strings_terminated_def list_all_update)

lemma create_visit_terminated: "create_visit e vid u t = Some visit \<Longrightarrow> terminated visit"
  by (auto simp: create_visit_def terminated_def strdup_def split: if_splits)


subsection \<open>Reading back what was written\<close>

lemma length_le_bytes: "length (le_bytes k n) = k"
  by (induction k arbitrary: n) simp_all

lemma le_nat_le_bytes: "n < 256 ^ k \<Longrightarrow> le_nat (le_bytes k n) = n"
proof (induction k arbitrary: n)
  case 0
  then show ?case by simp
next
  case (Suc k)
  then have "n div 256 < 256 ^ k"
    by (simp add: less_mult_imp_div_less mult.commute)
  with Suc.IH have "le_nat (le_bytes k (n div 256)) = n div 256" by simp
  moreover have "unat (of_nat (n mod 256) :: byte) = n mod 256"
    by (simp add: unat_of_nat)
  ultimately show ?case by simp
qed

lemma fread_append: "length b = n \<Longrightarrow> fread n (b @ rest) = Some (b, rest)"
  by (simp add: fread_def)

lemma uint32_round_trip: "(of_nat (le_nat (le_bytes 4 (unat w))) :: uint32_t) = w"
proof -
  have "unat w < 2 ^ 32" using unsigned_less [of w] by simp
  then have "unat w < 256 ^ 4" by simp
  then show ?thesis by (simp add: le_nat_le_bytes)
qed

lemma word64_round_trip: "(of_nat (le_nat (le_bytes 8 (unat w))) :: 64 word) = w"
proof -
  have "unat w < 2 ^ 64" using unsigned_less [of w] by simp
  then have "unat w < 256 ^ 8" by simp
  then show ?thesis by (simp add: le_nat_le_bytes)
qed

lemma size_t_round_trip: "n < 2 ^ 64 \<Longrightarrow> le_nat (le_bytes 8 n) = n"
  by (rule le_nat_le_bytes) simp

lemma length_put [simp]:
  "length (put_size_t n) = 8" "length (put_uint32 w) = 4" "length (put_timespec t) = 16"
  by (simp_all add: put_size_t_def put_uint32_def put_timespec_def length_le_bytes)

lemma put_timespec_halves:
  "take 8 (put_timespec t) = le_bytes 8 (unat (tv_sec t))"
  "drop 8 (put_timespec t) = le_bytes 8 (unat (tv_nsec t))"
  by (simp_all add: put_timespec_def length_le_bytes)

lemma read_visit_layout:
  assumes "fits_visit v" and "\<forall>site. \<not> alloc_fails e site"
  shows "read_visit e i j (layout_visit v @ rest) = Some (v, rest)"
proof -
  define ub where "ub = url v"
  define tb where "tb = text' v"
  have ul: "length ub < 2 ^ 64" and tl: "length tb < 2 ^ 64"
    using assms(1) by (simp_all add: ub_def tb_def fits_visit_def)
  have s0: "fread 4 (layout_visit v @ rest) = Some (put_uint32 (visit_id v),
              put_size_t (length ub) @ ub @ put_size_t (length tb) @ tb
              @ put_timespec (time v) @ rest)"
    by (simp add: layout_visit_def ub_def tb_def fread_append)
  have s1: "fread 8 (put_size_t (length ub) @ ub @ put_size_t (length tb) @ tb
              @ put_timespec (time v) @ rest)
            = Some (put_size_t (length ub), ub @ put_size_t (length tb) @ tb
              @ put_timespec (time v) @ rest)"
    by (simp add: fread_append)
  have n1: "le_nat (put_size_t (length ub)) = length ub"
    using ul by (simp add: put_size_t_def size_t_round_trip)
  have s2: "fread (length ub) (ub @ put_size_t (length tb) @ tb @ put_timespec (time v) @ rest)
            = Some (ub, put_size_t (length tb) @ tb @ put_timespec (time v) @ rest)"
    by (simp add: fread_append)
  have s3: "fread 8 (put_size_t (length tb) @ tb @ put_timespec (time v) @ rest)
            = Some (put_size_t (length tb), tb @ put_timespec (time v) @ rest)"
    by (simp add: fread_append)
  have n2: "le_nat (put_size_t (length tb)) = length tb"
    using tl by (simp add: put_size_t_def size_t_round_trip)
  have s4: "fread (length tb) (tb @ put_timespec (time v) @ rest)
            = Some (tb, put_timespec (time v) @ rest)"
    by (simp add: fread_append)
  have s5: "fread 16 (put_timespec (time v) @ rest) = Some (put_timespec (time v), rest)"
    by (simp add: fread_append)
  have idr: "(of_nat (le_nat (put_uint32 (visit_id v))) :: uint32_t) = visit_id v"
    by (simp add: put_uint32_def uint32_round_trip)
  have tr: "\<lparr>tv_sec = of_nat (le_nat (take 8 (put_timespec (time v)))),
             tv_nsec = of_nat (le_nat (drop 8 (put_timespec (time v))))\<rparr> = time v"
    by (simp add: put_timespec_halves word64_round_trip)
  have "read_visit e i j (layout_visit v @ rest)
        = Some (\<lparr>visit_id = visit_id v, url = ub, text' = tb, time = time v\<rparr>, rest)"
    unfolding read_visit_def using assms(2)
    by (simp add: s0 s1 n1 s2 s3 n2 s4 s5 idr tr)
  moreover have "\<lparr>visit_id = visit_id v, url = ub, text' = tb, time = time v\<rparr> = v"
    by (simp add: ub_def tb_def)
  ultimately show ?thesis by simp
qed

lemma read_visits_layout:
  assumes "\<forall>site. \<not> alloc_fails e site"
  shows "list_all fits_visit vs
     \<Longrightarrow> read_visits e mv i j (length vs) (concat (map layout_visit vs) @ rest) kept
         = Some (kept @ take (mv - j) vs, rest)"
proof (induction vs arbitrary: j kept)
  case Nil
  then show ?case by simp
next
  case (Cons v vs)
  have rv: "read_visit e i j (layout_visit v @ concat (map layout_visit vs) @ rest)
            = Some (v, concat (map layout_visit vs) @ rest)"
    using Cons.prems assms by (intro read_visit_layout) simp_all
  have rest: "read_visits e mv i (Suc j) (length vs) (concat (map layout_visit vs) @ rest)
                (if j < mv then kept @ [v] else kept)
              = Some ((if j < mv then kept @ [v] else kept) @ take (mv - Suc j) vs, rest)"
    using Cons.prems by (intro Cons.IH) simp_all
  have "(if j < mv then kept @ [v] else kept) @ take (mv - Suc j) vs
        = kept @ take (mv - j) (v # vs)"
  proof (cases "j < mv")
    case True
    then have "mv - j = Suc (mv - Suc j)" by simp
    with True show ?thesis by simp
  next
    case False
    then show ?thesis by simp
  qed
  with rv rest show ?case by simp
qed

lemma read_user_layout:
  assumes "\<forall>site. \<not> alloc_fails e site" and "fits_user u"
  shows "read_user e mv i (layout_user u @ rest) = Loaded (loaded_user mv u, rest)"
proof -
  define bs where "bs = concat (map layout_visit (visits u))"
  have "length (visits u) < 2 ^ 61" using assms(2) by (simp add: fits_user_def)
  then have fits: "length (visits u) < 2 ^ 64" "list_all fits_visit (visits u)"
    using assms(2) by (simp_all add: fits_user_def)
  have s0: "fread 4 (layout_user u @ rest)
            = Some (put_uint32 (user_id u), put_size_t (length (visits u)) @ bs @ rest)"
    by (simp add: layout_user_def bs_def fread_append)
  have s1: "fread 8 (put_size_t (length (visits u)) @ bs @ rest)
            = Some (put_size_t (length (visits u)), bs @ rest)"
    by (simp add: fread_append)
  have n: "le_nat (put_size_t (length (visits u))) = length (visits u)"
    using fits(1) by (simp add: put_size_t_def size_t_round_trip)
  have idr: "(of_nat (le_nat (put_uint32 (user_id u))) :: uint32_t) = user_id u"
    by (simp add: put_uint32_def uint32_round_trip)
  have rv: "read_visits e mv i 0 (length (visits u)) (bs @ rest) []
            = Some ([] @ take (mv - 0) (visits u), rest)"
    unfolding bs_def using assms(1) fits(2) by (rule read_visits_layout)
  show ?thesis
    unfolding read_user_def using assms(1) rv
    by (simp add: s0 s1 n idr create_user_def loaded_user_def Let_def)
qed

lemma read_users_layout:
  assumes "\<forall>site. \<not> alloc_fails e site"
  shows "list_all fits_user us
     \<Longrightarrow> read_users e mv i (length us) (concat (map layout_user us) @ rest) loaded
         = Inr (Some (loaded @ map (loaded_user mv) us))"
proof (induction us arbitrary: i loaded)
  case Nil
  then show ?case by simp
next
  case (Cons u us)
  have ru: "read_user e mv i (layout_user u @ concat (map layout_user us) @ rest)
            = Loaded (loaded_user mv u, concat (map layout_user us) @ rest)"
    using assms Cons.prems by (intro read_user_layout) simp_all
  have rest: "read_users e mv (Suc i) (length us) (concat (map layout_user us) @ rest)
                (loaded @ [loaded_user mv u])
              = Inr (Some ((loaded @ [loaded_user mv u]) @ map (loaded_user mv) us))"
    using Cons.prems by (intro Cons.IH) simp_all
  from ru rest show ?case by simp
qed

lemma deserialize_layout:
  assumes "\<forall>site. \<not> alloc_fails e site" and "fits_size_t us"
    and "d p = Some (layout_file capacity_bound us @ rest)"
  shows "deserialize_manager e d p mv
         = Inr (Some \<lparr>users = map (loaded_user mv) us,
                      user_capacity = (if 0 < length us then length us else 10),
                      max_visits = mv, path = p\<rparr>)"
proof -
  define bs where "bs = concat (map layout_user us)"
  have "length us < 2 ^ 61" using assms(2) by (simp add: fits_size_t_def)
  then have fits: "length us < 2 ^ 64" "list_all fits_user us"
    using assms(2) by (simp_all add: fits_size_t_def)
  have s0: "fread 8 (layout_file capacity_bound us @ rest)
            = Some (put_size_t capacity_bound, put_size_t (length us) @ bs @ rest)"
    by (simp add: layout_file_def bs_def fread_append)
  have s1: "fread 8 (put_size_t (length us) @ bs @ rest) = Some (put_size_t (length us), bs @ rest)"
    by (simp add: fread_append)
  have n: "le_nat (put_size_t (length us)) = length us"
    using fits(1) by (simp add: put_size_t_def size_t_round_trip)
  have ru: "read_users e mv 0 (length us) (bs @ rest) [] = Inr (Some ([] @ map (loaded_user mv) us))"
    unfolding bs_def using assms(1) fits(2) by (rule read_users_layout)
  show ?thesis
    unfolding deserialize_manager_def using assms(1,3) ru
    by (simp add: s0 s1 n Let_def)
qed

lemma take_strlen:
  "0 \<in> set b \<Longrightarrow> take (length (takeWhile (\<lambda>c. c \<noteq> 0) b) + 1) b = c_string b @ [0]"
proof (induction b)
  case Nil
  then show ?case by simp
next
  case (Cons x b)
  then show ?case by (cases "x = 0") (auto simp: c_string_def)
qed

lemma c_string_shorter: "0 \<in> set b \<Longrightarrow> length (c_string b) < length b"
  by (induction b) (auto simp: c_string_def)

lemma c_string_as_written: "c_string (c_string b @ [0]) = c_string b"
proof -
  have "\<forall>x \<in> set (takeWhile (\<lambda>c. c \<noteq> 0) b). x \<noteq> (0 :: byte)"
    by (auto dest: set_takeWhileD)
  then show ?thesis by (simp add: c_string_def takeWhile_append2)
qed

lemma serialize_visit_layout:
  "terminated v \<Longrightarrow> serialize_visit v = Some (layout_visit (as_written v))"
  using take_strlen [of "url v"] take_strlen [of "text' v"]
  by (simp add: serialize_visit_def strlen_def terminated_def c_string_def layout_visit_def
      as_written_def)

lemma serialize_visits_layout:
  "list_all terminated vs
   \<Longrightarrow> serialize_visits vs = Some (concat (map layout_visit (map as_written vs)))"
  by (induction vs) (simp_all add: serialize_visit_layout)

lemma serialize_user_layout:
  "list_all terminated (visits u) \<Longrightarrow> serialize_user u = Some (layout_user (written_user u))"
  by (simp add: serialize_user_def serialize_visits_layout layout_user_def written_user_def)

lemma serialize_users_layout:
  "list_all (\<lambda>u. list_all terminated (visits u)) us
   \<Longrightarrow> serialize_users us = Some (concat (map layout_user (map written_user us)))"
  by (induction us) (simp_all add: serialize_user_layout)

lemma file_image_layout:
  "strings_terminated m
   \<Longrightarrow> file_image m = Some (layout_file (max_visits m) (map written_user (users m)))"
  by (simp add: file_image_def strings_terminated_def serialize_users_layout layout_file_def)

lemma fits_as_written: "terminated v \<Longrightarrow> fits_visit v \<Longrightarrow> fits_visit (as_written v)"
  using c_string_shorter [of "url v"] c_string_shorter [of "text' v"]
  by (simp add: terminated_def fits_visit_def as_written_def)

lemma fits_written_user:
  "list_all terminated (visits u) \<Longrightarrow> fits_user u \<Longrightarrow> fits_user (written_user u)"
  by (auto simp: fits_user_def written_user_def list_all_iff fits_as_written)

lemma fits_written_users:
  "strings_terminated m \<Longrightarrow> fits_size_t (users m) \<Longrightarrow> fits_size_t (map written_user (users m))"
  by (auto simp: fits_size_t_def strings_terminated_def list_all_iff fits_written_user)

lemma tuples_reloaded:
  assumes "within_capacity m"
  shows "tuples \<lparr>users = map (loaded_user (max_visits m)) (map written_user (users m)),
                 user_capacity = c, max_visits = max_visits m, path = p\<rparr>
         = tuples m"
proof -
  have "\<And>u. u \<in> set (users m) \<Longrightarrow>
          map (\<lambda>v. (user_id (loaded_user (max_visits m) (written_user u)), visit_id v,
                     c_string (url v), c_string (text' v), time v))
              (visits (loaded_user (max_visits m) (written_user u)))
          = map (\<lambda>v. (user_id u, visit_id v, c_string (url v), c_string (text' v), time v))
              (visits u)"
  proof -
    fix u assume "u \<in> set (users m)"
    with assms have "length (visits u) \<le> max_visits m"
      by (simp add: within_capacity_def list_all_iff)
    then show "map (\<lambda>v. (user_id (loaded_user (max_visits m) (written_user u)), visit_id v,
                     c_string (url v), c_string (text' v), time v))
              (visits (loaded_user (max_visits m) (written_user u)))
          = map (\<lambda>v. (user_id u, visit_id v, c_string (url v), c_string (text' v), time v))
              (visits u)"
      by (simp add: loaded_user_def written_user_def as_written_def c_string_as_written
          comp_def)
  qed
  then show ?thesis
    by (simp add: tuples_def comp_def cong: map_cong)
qed


subsection \<open>Defined behaviour\<close>

lemma sound_strings_terminated: "sound m \<Longrightarrow> strings_terminated m"
  by (auto simp: sound_def sound_user_def strings_terminated_def list_all_iff)

lemma sound_store:
  assumes "sound m" and "sound_user (max_visits m) u'"
  shows "sound (m\<lparr>users := (users m)[i := u']\<rparr>)"
  using assms by (simp add: sound_def list_all_update)

lemma sound_nth: "sound m \<Longrightarrow> i < length (users m) \<Longrightarrow> sound_user (max_visits m) (users m ! i)"
  by (simp add: sound_def list_all_iff)

lemma find_or_create_user_sound:
  assumes "sound m"
  shows "\<exists>m1 found. find_or_create_user e m uid = Inr (m1, found) \<and> sound m1
           \<and> (\<forall>i. found = Some i \<longrightarrow> i < length (users m1))"
proof (cases "find_user m uid")
  case (Some i)
  then have "i < length (users m)" using user_index_Some by (auto simp: find_user_def)
  with Some assms show ?thesis by (simp add: find_or_create_user_def)
next
  case None
  show ?thesis
  proof (cases "user_capacity m \<le> length (users m) \<and> alloc_fails e GrowUsers")
    case True
    with None assms show ?thesis by (simp add: find_or_create_user_def)
  next
    case False
    define m1 where "m1 = (if user_capacity m \<le> length (users m)
                      then m\<lparr>user_capacity := user_capacity m * 2\<rparr> else m)"
    have s1: "sound m1" and room: "length (users m1) < user_capacity m1"
      and mv: "max_visits m1 = max_visits m" and us: "users m1 = users m"
      using assms by (auto simp: m1_def sound_def)
    show ?thesis
    proof (cases "create_user e NewUser NewUserVisits uid (max_visits m1)")
      case None
      with \<open>find_user m uid = None\<close> False s1 show ?thesis
        by (auto simp: find_or_create_user_def m1_def [symmetric] Let_def)
    next
      case (Some user)
      then have user: "user = \<lparr>user_id = uid, visits = [], capacity = max_visits m1\<rparr>"
        by (auto simp: create_user_def split: if_splits)
      have "sound (m1\<lparr>users := users m1 @ [user]\<rparr>)"
        using s1 room by (simp add: sound_def sound_user_def user)
      with \<open>find_user m uid = None\<close> False Some room show ?thesis
        by (auto simp: find_or_create_user_def m1_def [symmetric] Let_def)
    qed
  qed
qed

lemma add_visit_sound:
  assumes "sound m"
  shows "\<exists>r m' d'. add_visit e d m uid vid u t = Inr (r, m', d') \<and> sound m'"
proof -
  from find_or_create_user_sound [OF assms] obtain m1 found where
    fc: "find_or_create_user e m uid = Inr (m1, found)" and s1: "sound m1"
    and il: "\<forall>i. found = Some i \<longrightarrow> i < length (users m1)"
    by blast
  show ?thesis
  proof (cases found)
    case None
    with fc s1 show ?thesis by (auto simp: add_visit_unfold)
  next
    case (Some i)
    with il have i: "i < length (users m1)" by simp
    define user where "user = users m1 ! i"
    have su: "sound_user (max_visits m1) user"
      using s1 i by (simp add: user_def sound_nth)
    have mv: "0 < max_visits m1" using s1 by (simp add: sound_def)
    show ?thesis
    proof (cases "\<exists>v \<in> set (visits user). visit_id v = vid")
      case True
      with fc Some s1 show ?thesis by (auto simp: add_visit_unfold user_def)
    next
      case False
      note nodup = this
      show ?thesis
      proof (cases "create_visit e vid u t")
        case None
        with fc Some s1 nodup show ?thesis by (auto simp: add_visit_unfold user_def)
      next
        case (Some visit)
        note cv = this
        have tv: "terminated visit" using cv by (rule create_visit_terminated)
        obtain vs1 where rm: "room m1 user = Inr vs1" and l1: "length vs1 < max_visits m1"
          and l2: "length vs1 \<le> length (visits user)" and sub: "set vs1 \<subseteq> set (visits user)"
        proof (cases "max_visits m1 \<le> length (visits user)")
          case True
          with mv have ne: "visits user \<noteq> []" by auto
          from evict_oldest_min [OF ne] obtain k where k: "k < length (visits user)"
            and ev: "evict_oldest (visits user) = Inr (swap_pop (visits user) k)" by blast
          have "set (swap_pop (visits user) k) \<subseteq> set (visits user)"
            using swap_pop_mset [OF k] by (metis in_diffD mset_eq_setD set_mset_mset subsetI)
          moreover have "length (swap_pop (visits user) k) = length (visits user) - 1"
            using ne by (rule swap_pop_length)
          ultimately show ?thesis
            using that [of "swap_pop (visits user) k"] True ev ne su mv
            by (auto simp: room_def sound_user_def)
        next
          case False
          then show ?thesis using that [of "visits user"] by (simp add: room_def)
        qed
        have t1: "list_all terminated vs1"
          using su sub by (auto simp: sound_user_def list_all_iff)
        have cap: "0 < capacity user" "length vs1 \<le> capacity user"
          using su l2 by (auto simp: sound_user_def)
        show ?thesis
        proof (cases "capacity user \<le> length vs1 \<and> alloc_fails e GrowVisits")
          case True
          have "sound_user (max_visits m1) (user\<lparr>visits := vs1\<rparr>)"
            using cap l1 t1 by (simp add: sound_user_def)
          from sound_store [OF s1 this] True fc \<open>found = Some i\<close> nodup cv rm show ?thesis
            by (auto simp: add_visit_unfold user_def [symmetric])
        next
          case False
          define c where "c = (if capacity user \<le> length vs1
                               then min (capacity user * 2) (max_visits m1)
                               else capacity user)"
          have c: "length vs1 < c" using cap l1 by (auto simp: c_def)
          define m3 where
            "m3 = m1\<lparr>users := (users m1)[i := user\<lparr>visits := vs1 @ [visit], capacity := c\<rparr>]\<rparr>"
          have "sound_user (max_visits m1) (user\<lparr>visits := vs1 @ [visit], capacity := c\<rparr>)"
            using c l1 t1 tv by (simp add: sound_user_def)
          from sound_store [OF s1 this] have s3: "sound m3" by (simp add: m3_def)
          then obtain d' where ser: "serialize_manager e d m3 = Inr d'"
            using serialize_manager_defined sound_strings_terminated by blast
          have "add_visit e d m uid vid u t = Inr (True, m3, d')"
            using False fc \<open>found = Some i\<close> nodup cv rm c ser
            unfolding c_def m3_def user_def
            by (auto simp: add_visit_unfold)
          with s3 show ?thesis by blast
        qed
      qed
    qed
  qed
qed

lemma sound_user_shrink:
  assumes "sound_user mv u" and "set vs' \<subseteq> set (visits u)" and "length vs' \<le> length (visits u)"
  shows "sound_user mv (u\<lparr>visits := vs'\<rparr>)"
  using assms by (auto simp: sound_user_def list_all_iff)

lemma delete_sound:
  assumes "sound m"
  shows "\<exists>r m' d'. VisitManagerDelete e d (Some m) uid (Some ids) = Inr (r, Some m', d') \<and> sound m'"
proof (cases "ids = [] \<or> find_user m uid = None")
  case True
  with assms show ?thesis by (auto simp: VisitManagerDelete_def split: if_splits)
next
  case False
  then obtain i where i: "find_user m uid = Some i" and ne: "ids \<noteq> []" by auto
  then have il: "i < length (users m)" using user_index_Some by (auto simp: find_user_def)
  define vs' where "vs' = fst (delete_ids ids (visits (users m ! i)) False)"
  define m' where "m' = m\<lparr>users := (users m)[i := (users m ! i)\<lparr>visits := vs'\<rparr>]\<rparr>"
  have "sound_user (max_visits m) ((users m ! i)\<lparr>visits := vs'\<rparr>)"
    using sound_nth [OF assms il] unfolding vs'_def
    by (rule sound_user_shrink) (simp_all add: delete_ids_subset delete_ids_length)
  from sound_store [OF assms this] have s': "sound m'" by (simp add: m'_def)
  then obtain d' where "serialize_manager e d m' = Inr d'"
    using serialize_manager_defined sound_strings_terminated by blast
  with i ne s' show ?thesis
    by (auto simp: VisitManagerDelete_def Let_def vs'_def m'_def)
qed

lemma clear_sound:
  assumes "sound m"
  shows "\<exists>m' d'. VisitManagerClear e d (Some m) uid = Inr (Some m', d') \<and> sound m'"
proof (cases "find_user m uid")
  case None
  with assms show ?thesis by (simp add: VisitManagerClear_def)
next
  case (Some i)
  then have il: "i < length (users m)" using user_index_Some by (auto simp: find_user_def)
  define m' where "m' = m\<lparr>users := (users m)[i := (users m ! i)\<lparr>visits := []\<rparr>]\<rparr>"
  have "sound_user (max_visits m) ((users m ! i)\<lparr>visits := []\<rparr>)"
    using sound_nth [OF assms il] by (rule sound_user_shrink) simp_all
  from sound_store [OF assms this] have s': "sound m'" by (simp add: m'_def)
  then obtain d' where "serialize_manager e d m' = Inr d'"
    using serialize_manager_defined sound_strings_terminated by blast
  with Some s' show ?thesis
    by (auto simp: VisitManagerClear_def Let_def m'_def)
qed

lemma get_sound:
  assumes "sound m"
  shows "\<exists>r c m'. VisitManagerGetRecentVisits e (Some m) uid True = (r, c, Some m') \<and> sound m'"
proof (cases "find_user m uid")
  case None
  with assms show ?thesis by (simp add: VisitManagerGetRecentVisits_def)
next
  case (Some i)
  then have il: "i < length (users m)" using user_index_Some by (auto simp: find_user_def)
  define vs' where "vs' = sort_visits e (visits (users m ! i))"
  have "set vs' = set (visits (users m ! i))"
    unfolding vs'_def using sort_visits_mset by (metis mset_eq_setD)
  then have "sound_user (max_visits m) ((users m ! i)\<lparr>visits := vs'\<rparr>)"
    using sound_nth [OF assms il]
    by (intro sound_user_shrink) (simp_all add: vs'_def sort_visits_length)
  from sound_store [OF assms this] Some show ?thesis
    by (simp add: VisitManagerGetRecentVisits_def Let_def vs'_def)
qed

lemma step_sound:
  assumes "sound m"
  shows "\<exists>m' d'. step (m, d) c = Inr (m', d') \<and> sound m'"
proof (cases c)
  case (AddVisit e uid vid u t)
  from add_visit_sound [OF assms, of e d uid vid u t] AddVisit show ?thesis
    by (auto simp: VisitManagerAddVisit_def)
next
  case (Delete e uid ids)
  from delete_sound [OF assms, of e d uid ids] Delete show ?thesis by auto
next
  case (Clear e uid)
  from clear_sound [OF assms, of e d uid] Clear show ?thesis by auto
next
  case (GetRecentVisits e uid)
  from get_sound [OF assms, of e uid] GetRecentVisits show ?thesis by auto
qed

theorem sound_runs_are_defined:
  "sound m \<Longrightarrow> \<exists>m' d'. run (m, d) calls = Inr (m', d') \<and> sound m'"
proof (induction calls arbitrary: m d)
  case Nil
  then show ?case by simp
next
  case (Cons c calls)
  from step_sound [OF Cons.prems, of d c] obtain m1 d1 where
    s: "step (m, d) c = Inr (m1, d1)" and s1: "sound m1" by blast
  from Cons.IH [OF s1, of d1] s show ?case by simp
qed

lemma create_fresh_sound:
  "0 < mv \<Longrightarrow> d p = None \<Longrightarrow> VisitManagerCreate e d p mv = Inr (Some m) \<Longrightarrow> sound m"
  by (auto simp: VisitManagerCreate_def sound_def split: if_splits)

section \<open>Claims\<close>

text \<open>
  C1. \<^verbatim>\<open>GetRecentVisits\<close> is to return a known user's visits newest first. The
  comparison function it sorts with does not look at the visits. In the memory
  \<open>after_three_deletes\<close> slot 0 holds the later visit and slot 1 the earlier one; called
  on the addresses of the two slots, in either order, \<^verbatim>\<open>compare_visits\<close> compares the
  words of slots 3 and 4 and answers that slot 1 sorts before slot 0.
\<close>

theorem compare_visits_ignores_timestamps:
  "compare_visits after_three_deletes 0x1000 0x1008 = 1
   \<and> compare_visits after_three_deletes 0x1008 0x1000 = - 1
   \<and> after_three_deletes (after_three_deletes 0x1008 + 24)
       <s after_three_deletes (after_three_deletes 0x1000 + 24)"
  by (simp add: compare_visits_def after_three_deletes_def word_sless_alt)

text \<open>
  C2, as stated: on every record that holds at least \<^verbatim>\<open>max_visits\<close> visits and not the
  new id, \<^verbatim>\<open>AddVisit\<close> removes an oldest visit and appends the new one. With
  \<^verbatim>\<open>max_visits = 0\<close> an empty record holds at least \<^verbatim>\<open>max_visits\<close> visits; there the
  eviction block reads slot 0 of the empty array, and no visit is added.
\<close>

theorem eviction_on_empty_record_reads_dead_slot:
  "find_user loaded_at_zero 1 = Some 0
   \<and> visits (users loaded_at_zero ! 0) = []
   \<and> max_visits loaded_at_zero = 0
   \<and> VisitManagerAddVisit quiet no_files (Some loaded_at_zero) 1 7 (Some [0x61]) (Some [0x41])
       = Inl ReadsDeadSlot"
  by (simp add: loaded_at_zero_def find_user_def VisitManagerAddVisit_def add_visit_def
      find_or_create_user_def create_visit_def quiet_def evict_oldest_def)

text \<open>
  C2, amended: on a record that is not empty, holds at least \<^verbatim>\<open>max_visits\<close> visits and
  not the new id, when the allocations of the visit succeed (and the record fits its
  array, and the string buffers are terminated), \<^verbatim>\<open>AddVisit\<close> returns true; some slot
  \<open>k\<close> holds a visit whose timestamp is not later than any other's, the last live slot
  is moved into slot \<open>k\<close>, the new visit with the current time is appended, and nothing
  else changes: the visits are the old ones minus that visit plus the new one.
\<close>

theorem eviction_removes_an_oldest_visit:
  assumes "find_user m uid = Some i"
    and "vs = visits (users m ! i)"
    and "vs \<noteq> []"
    and "max_visits m \<le> length vs"
    and "\<not> (\<exists>v \<in> set vs. visit_id v = vid)"
    and "\<not> alloc_fails e NewVisit" and "\<not> alloc_fails e NewUrl" and "\<not> alloc_fails e NewText"
    and "new = \<lparr>visit_id = vid, url = strdup u, text' = strdup t, time = now e\<rparr>"
    and "length vs \<le> capacity (users m ! i)"
    and "strings_terminated m"
  shows "\<exists>k d'. k < length vs
      \<and> (\<forall>v \<in> set vs. not_later (time (vs ! k)) (time v))
      \<and> VisitManagerAddVisit e d (Some m) uid vid (Some u) (Some t)
          = Inr (True,
                 Some (m\<lparr>users := (users m)
                          [i := (users m ! i)\<lparr>visits := butlast (vs[k := last vs]) @ [new]\<rparr>]\<rparr>),
                 d')
      \<and> mset (butlast (vs[k := last vs]) @ [new]) = mset vs - {#vs ! k#} + {#new#}"
proof -
  from evict_oldest_min [OF assms(3)] obtain k where
    k: "k < length vs" and kmin: "\<forall>v \<in> set vs. not_later (time (vs ! k)) (time v)"
    and ev: "evict_oldest vs = Inr (swap_pop vs k)"
    by blast
  define vs1 where "vs1 = swap_pop vs k"
  have vs1_alt: "vs1 = butlast (vs[k := last vs])"
    using k by (simp add: vs1_def swap_pop_alt)
  have len1: "length vs1 = length vs - 1"
    using assms(3) by (simp add: vs1_def swap_pop_length)
  have ms1: "mset vs1 = mset vs - {#vs ! k#}"
    using k by (simp add: vs1_def swap_pop_mset)
  have il: "i < length (users m)"
    using assms(1) user_index_Some by (auto simp: find_user_def)
  have fc: "find_or_create_user e m uid = Inr (m, Some i)"
    using assms(1) by (simp add: find_or_create_user_def)
  have cv: "create_visit e vid u t = Some new"
    using assms(6,7,8,9) by (simp add: create_visit_def)
  have rm: "room m (users m ! i) = Inr vs1"
    using assms(2,4) ev by (simp add: room_def vs1_def)
  have nogrow: "\<not> capacity (users m ! i) \<le> length vs1"
    using assms(3,10) len1 by (cases vs) auto
  define m' where
    "m' = m\<lparr>users := (users m)[i := (users m ! i)\<lparr>visits := vs1 @ [new]\<rparr>]\<rparr>"
  have "set vs1 \<subseteq> set vs"
    using ms1 by (metis in_diffD mset_eq_setD set_mset_mset subsetI)
  moreover have "list_all terminated vs"
    using assms(2,11) il by (auto simp: strings_terminated_def list_all_iff)
  ultimately have "list_all terminated vs1" by (auto simp: list_all_iff)
  with create_visit_terminated [OF cv] have "list_all terminated (vs1 @ [new])" by simp
  with assms(11) have "strings_terminated m'"
    unfolding m'_def by (rule strings_terminated_store)
  then obtain d' where ser: "serialize_manager e d m' = Inr d'"
    using serialize_manager_defined by blast
  have "add_visit e d m uid vid u t = Inr (True, m', d')"
    using fc cv rm nogrow ser assms(2,5)
    by (simp add: add_visit_unfold m'_def [symmetric])
  then have "VisitManagerAddVisit e d (Some m) uid vid (Some u) (Some t)
             = Inr (True, Some m', d')"
    by (simp add: VisitManagerAddVisit_def)
  moreover have "mset (vs1 @ [new]) = mset vs - {#vs ! k#} + {#new#}"
    using ms1 by simp
  ultimately show ?thesis
    using k kmin by (auto simp: m'_def vs1_alt)
qed

theorem eviction_removes_an_oldest_visit_witness:
  "find_user two_visits 1 = Some 0
   \<and> visits (users two_visits ! 0) = [visit_a, visit_b]
   \<and> max_visits two_visits \<le> length [visit_a, visit_b]
   \<and> \<not> (\<exists>v \<in> set [visit_a, visit_b]. visit_id v = 103)
   \<and> length [visit_a, visit_b] \<le> capacity (users two_visits ! 0)
   \<and> strings_terminated two_visits
   \<and> not_later (time visit_a) (time visit_b)
   \<and> (\<exists>d'. VisitManagerAddVisit quiet no_files (Some two_visits) 1 103 (Some [0x63]) (Some [0x43])
         = Inr (True,
                Some (two_visits\<lparr>users :=
                   [\<lparr>user_id = 1,
                     visits = [visit_b, \<lparr>visit_id = 103, url = [0x63, 0], text' = [0x43, 0],
                                         time = \<lparr>tv_sec = 300, tv_nsec = 0\<rparr>\<rparr>],
                     capacity = 2\<rparr>]\<rparr>),
                d'))"
proof -
  have h1: "find_user two_visits 1 = Some 0"
    by (simp add: two_visits_def find_user_def)
  have h2: "[visit_a, visit_b] = visits (users two_visits ! 0)"
    by (simp add: two_visits_def)
  have h3: "[visit_a, visit_b] \<noteq> []" by simp
  have h4: "max_visits two_visits \<le> length [visit_a, visit_b]"
    by (simp add: two_visits_def)
  have h5: "\<not> (\<exists>v \<in> set [visit_a, visit_b]. visit_id v = 103)"
    by (simp add: visit_a_def visit_b_def)
  have h6: "\<not> alloc_fails quiet NewVisit" "\<not> alloc_fails quiet NewUrl"
    "\<not> alloc_fails quiet NewText"
    by (simp_all add: quiet_def)
  have h7: "\<lparr>visit_id = 103, url = [0x63, 0], text' = [0x43, 0],
             time = \<lparr>tv_sec = 300, tv_nsec = 0\<rparr>\<rparr>
            = \<lparr>visit_id = 103, url = strdup [0x63], text' = strdup [0x43], time = now quiet\<rparr>"
    by (simp add: strdup_def quiet_def)
  have h8: "length [visit_a, visit_b] \<le> capacity (users two_visits ! 0)"
    by (simp add: two_visits_def)
  have h9: "strings_terminated two_visits"
    by (simp add: two_visits_def strings_terminated_def terminated_def visit_a_def visit_b_def)
  have nl: "not_later (time visit_a) (time visit_b)" "\<not> not_later (time visit_b) (time visit_a)"
    by (simp_all add: not_later_def visit_a_def visit_b_def)
  from eviction_removes_an_oldest_visit [OF h1 h2 h3 h4 h5 h6 h7 h8 h9, of no_files]
  obtain k d' where k: "k < length [visit_a, visit_b]"
    and kmin: "\<forall>v \<in> set [visit_a, visit_b]. not_later (time ([visit_a, visit_b] ! k)) (time v)"
    and call: "VisitManagerAddVisit quiet no_files (Some two_visits) 1 103 (Some [0x63]) (Some [0x43])
          = Inr (True,
                 Some (two_visits\<lparr>users := (users two_visits)
                          [0 := (users two_visits ! 0)\<lparr>visits :=
                             butlast ([visit_a, visit_b][k := last [visit_a, visit_b]])
                             @ [\<lparr>visit_id = 103, url = [0x63, 0], text' = [0x43, 0],
                                 time = \<lparr>tv_sec = 300, tv_nsec = 0\<rparr>\<rparr>]\<rparr>]\<rparr>),
                 d')"
    by blast
  from k kmin nl have "k = 0" by (cases k) auto
  with call have "VisitManagerAddVisit quiet no_files (Some two_visits) 1 103 (Some [0x63]) (Some [0x43])
         = Inr (True,
                Some (two_visits\<lparr>users :=
                   [\<lparr>user_id = 1,
                     visits = [visit_b, \<lparr>visit_id = 103, url = [0x63, 0], text' = [0x43, 0],
                                         time = \<lparr>tv_sec = 300, tv_nsec = 0\<rparr>\<rparr>],
                     capacity = 2\<rparr>]\<rparr>),
                d')"
    by (simp add: two_visits_def)
  with h1 h2 h4 h5 h8 h9 nl show ?thesis by auto
qed
text \<open>
  C3. The bound on the number of visits of a record is claimed for every capacity, zero
  included. With \<open>max_visits = 0\<close> the first \<^verbatim>\<open>AddVisit\<close> for a user finds the empty record
  at capacity (\<^verbatim>\<open>0 >= 0\<close>), enters the eviction block and reads \<^verbatim>\<open>user->visits[0]->time\<close>
  while no slot of the array is live: the call has no defined result, and no bound on the
  count can be read off the state it leaves behind. This is so for a manager loaded from a
  file (whose record has a real array, of which no slot was assigned) and for a fresh one
  (whose record has the array that \<^verbatim>\<open>malloc(0)\<close> returned).
\<close>

theorem zero_capacity_add_reads_dead_slot:
  "VisitManagerCreate quiet (no_files(''rv.dat'' \<mapsto> one_visit_file)) ''rv.dat'' 0
     = Inr (Some loaded_at_zero)
   \<and> run (loaded_at_zero, no_files(''rv.dat'' \<mapsto> one_visit_file))
         [AddVisit quiet 1 7 [0x61] [0x41]]
     = Inl ReadsDeadSlot
   \<and> VisitManagerCreate quiet no_files ''rv.dat'' 0 = Inr (Some fresh_at_zero)
   \<and> run (fresh_at_zero, no_files) [AddVisit quiet 1 7 [0x61] [0x41]] = Inl ReadsDeadSlot"
proof -
  have v: "read_visit quiet 0 0 (drop 28 one_visit_file) = Some (visit_a, [])"
    by (simp add: quiet_def fread_def read_visit_def one_visit_file_def visit_a_def)
  have u: "read_user quiet 0 0 (drop 16 one_visit_file)
           = Loaded (\<lparr>user_id = 1, visits = [], capacity = 1\<rparr>, [])"
    using v
    by (simp add: quiet_def fread_def read_user_def one_visit_file_def create_user_def Let_def)
  have c1: "VisitManagerCreate quiet (no_files(''rv.dat'' \<mapsto> one_visit_file)) ''rv.dat'' 0
            = Inr (Some loaded_at_zero)"
    using u
    by (simp add: VisitManagerCreate_def deserialize_manager_def no_files_def
        fread_def one_visit_file_def Let_def quiet_def loaded_at_zero_def)
  have r1: "run (loaded_at_zero, no_files(''rv.dat'' \<mapsto> one_visit_file))
              [AddVisit quiet 1 7 [0x61] [0x41]] = Inl ReadsDeadSlot"
    by (simp add: loaded_at_zero_def find_user_def VisitManagerAddVisit_def add_visit_def
        find_or_create_user_def create_visit_def quiet_def evict_oldest_def)
  have c2: "VisitManagerCreate quiet no_files ''rv.dat'' 0 = Inr (Some fresh_at_zero)"
    by (simp add: VisitManagerCreate_def no_files_def quiet_def fresh_at_zero_def)
  have r2: "run (fresh_at_zero, no_files) [AddVisit quiet 1 7 [0x61] [0x41]] = Inl ReadsDeadSlot"
    by (simp add: fresh_at_zero_def find_user_def VisitManagerAddVisit_def add_visit_def
        find_or_create_user_def create_user_def create_visit_def quiet_def evict_oldest_def)
  from c1 r1 c2 r2 show ?thesis by simp
qed

text \<open>
  What the code does keep: from a manager returned by \<^verbatim>\<open>Create\<close> with capacity \<open>mv\<close> (fresh
  or loaded from a file), after every prefix of every sequence of calls whose results are
  all defined, the manager still has capacity \<open>mv\<close> and no record holds more than \<open>mv\<close>
  visits. From a sound manager, whose capacity is at least one, every sequence of calls is
  of that kind (\<open>sound_runs_are_defined\<close>); with capacity zero only the sequences are whose
  \<^verbatim>\<open>AddVisit\<close> calls all return before the eviction block.
\<close>

theorem count_bound_on_defined_runs:
  assumes "VisitManagerCreate e0 d0 p mv = Inr (Some m0)"
    and "run (m0, d0) calls = Inr final"
  shows "\<exists>m d. run (m0, d0) (take k calls) = Inr (m, d)
           \<and> max_visits m = mv \<and> (\<forall>u \<in> set (users m). length (visits u) \<le> mv)"
proof -
  have "run (m0, d0) (take k calls @ drop k calls) = Inr final"
    using assms(2) by simp
  then obtain st where st: "run (m0, d0) (take k calls) = Inr st"
    using run_append by blast
  obtain m d where md: "st = (m, d)" by (cases st)
  from create_within_capacity [OF assms(1)] have "max_visits m0 = mv" "within_capacity m0"
    by simp_all
  with run_within_capacity [of m0 d0 "take k calls" m d] st md
  have "max_visits m = mv" "within_capacity m" by simp_all
  with st md show ?thesis by (auto simp: within_capacity_def list_all_iff)
qed

theorem count_bound_on_defined_runs_example:
  "VisitManagerCreate quiet no_files ''rv.dat'' 2 = Inr (Some fresh_manager)
   \<and> (\<exists>final. run (fresh_manager, no_files) busy_calls = Inr final)
   \<and> (\<exists>m d. run (fresh_manager, no_files) (take 3 busy_calls) = Inr (m, d)
          \<and> max_visits m = 2 \<and> (\<forall>u \<in> set (users m). length (visits u) \<le> 2))
   \<and> VisitManagerCreate quiet (no_files(''rv.dat'' \<mapsto> one_visit_file)) ''rv.dat'' 0
       = Inr (Some loaded_at_zero)
   \<and> (\<exists>final. run (loaded_at_zero, no_files(''rv.dat'' \<mapsto> one_visit_file))
                  [GetRecentVisits quiet 1, Clear quiet 1] = Inr final)
   \<and> (\<exists>m d. run (loaded_at_zero, no_files(''rv.dat'' \<mapsto> one_visit_file))
               (take 2 [GetRecentVisits quiet 1, Clear quiet 1]) = Inr (m, d)
          \<and> max_visits m = 0 \<and> (\<forall>u \<in> set (users m). length (visits u) \<le> 0))"
proof -
  have c1: "VisitManagerCreate quiet no_files ''rv.dat'' 2 = Inr (Some fresh_manager)"
    by (simp add: VisitManagerCreate_def no_files_def quiet_def fresh_manager_def)
  have "\<exists>d. run (fresh_manager, no_files) busy_calls
          = Inr (\<lparr>users = [\<lparr>user_id = 1, visits = [], capacity = 2\<rparr>],
                  user_capacity = 10, max_visits = 2, path = ''rv.dat''\<rparr>, d)"
    by (simp add: busy_calls_def fresh_manager_def quiet_def
        VisitManagerAddVisit_def add_visit_def find_or_create_user_def find_user_def
        create_user_def create_visit_def strdup_def evict_oldest_def swap_pop_def older_def
        serialize_manager_eq strings_terminated_def terminated_def
        VisitManagerGetRecentVisits_def sort_visits_def VisitManagerDelete_def
        VisitManagerClear_def Let_def word_sless_alt)
  then obtain final1 where r1: "run (fresh_manager, no_files) busy_calls = Inr final1"
    by blast
  have v: "read_visit quiet 0 0 (drop 28 one_visit_file) = Some (visit_a, [])"
    by (simp add: quiet_def fread_def read_visit_def one_visit_file_def visit_a_def)
  have u: "read_user quiet 0 0 (drop 16 one_visit_file)
           = Loaded (\<lparr>user_id = 1, visits = [], capacity = 1\<rparr>, [])"
    using v
    by (simp add: quiet_def fread_def read_user_def one_visit_file_def create_user_def Let_def)
  have c2: "VisitManagerCreate quiet (no_files(''rv.dat'' \<mapsto> one_visit_file)) ''rv.dat'' 0
            = Inr (Some loaded_at_zero)"
    using u
    by (simp add: VisitManagerCreate_def deserialize_manager_def no_files_def
        fread_def one_visit_file_def Let_def quiet_def loaded_at_zero_def)
  have "\<exists>d. run (loaded_at_zero, no_files(''rv.dat'' \<mapsto> one_visit_file))
              [GetRecentVisits quiet 1, Clear quiet 1] = Inr (loaded_at_zero, d)"
    by (simp add: loaded_at_zero_def quiet_def find_user_def
        serialize_manager_eq strings_terminated_def terminated_def
        VisitManagerGetRecentVisits_def sort_visits_def VisitManagerClear_def Let_def)
  then obtain final2 where
    r2: "run (loaded_at_zero, no_files(''rv.dat'' \<mapsto> one_visit_file))
           [GetRecentVisits quiet 1, Clear quiet 1] = Inr final2"
    by blast
  from count_bound_on_defined_runs [OF c1 r1, of 3]
    count_bound_on_defined_runs [OF c2 r2, of 2] c1 c2 r1 r2
  show ?thesis by blast
qed

text \<open>
  C4. For a manager within capacity (string buffers terminated, counts and lengths values of
  \<^verbatim>\<open>size_t\<close>): when \<^verbatim>\<open>serialize_manager\<close> can open the file, loading the file it wrote
  with the same \<^verbatim>\<open>max_visits\<close>, no allocation failing, returns a manager with exactly
  the same set of (user id, visit id, URL, text, timestamp) tuples.
\<close>

theorem save_then_load_same_tuples:
  assumes "strings_terminated m" and "fits_size_t (users m)" and "within_capacity m"
    and "\<not> fopen_wb_fails e" and "serialize_manager e d m = Inr d'"
    and "\<forall>site. \<not> alloc_fails e' site"
  shows "\<exists>m'. deserialize_manager e' d' (path m) (max_visits m) = Inr (Some m')
            \<and> tuples m' = tuples m"
proof -
  have img: "file_image m = Some (layout_file (max_visits m) (map written_user (users m)))"
    using assms(1) by (rule file_image_layout)
  with assms(4,5) have
    "d' (path m) = Some (layout_file (max_visits m) (map written_user (users m)) @ [])"
    by (auto simp: serialize_manager_def)
  from deserialize_layout [where d = d' and p = "path m" and mv = "max_visits m",
      OF assms(6) fits_written_users [OF assms(1,2)] this]
    tuples_reloaded [OF assms(3)]
  show ?thesis by simp
qed

theorem save_then_load_same_tuples_witness:
  "strings_terminated two_visits \<and> fits_size_t (users two_visits) \<and> within_capacity two_visits
   \<and> (\<exists>d' m'. serialize_manager quiet no_files two_visits = Inr d'
          \<and> deserialize_manager quiet d' ''rv.dat'' 2 = Inr (Some m')
          \<and> tuples m' = {(1, 101, [0x61], [0x41], \<lparr>tv_sec = 100, tv_nsec = 5\<rparr>),
                          (1, 102, [0x62], [0x42], \<lparr>tv_sec = 200, tv_nsec = 0\<rparr>)})"
proof -
  have h1: "strings_terminated two_visits"
    by (simp add: two_visits_def strings_terminated_def terminated_def visit_a_def visit_b_def)
  have h2: "fits_size_t (users two_visits)"
    by (simp add: fits_size_t_def fits_user_def fits_visit_def two_visits_def
        visit_a_def visit_b_def)
  have h3: "within_capacity two_visits"
    by (simp add: within_capacity_def two_visits_def)
  have h4: "\<not> fopen_wb_fails quiet" and h6: "\<forall>site. \<not> alloc_fails quiet site"
    by (simp_all add: quiet_def)
  from serialize_manager_defined [OF h1] obtain d' where
    h5: "serialize_manager quiet no_files two_visits = Inr d'"
    by blast
  from save_then_load_same_tuples [OF h1 h2 h3 h4 h5 h6] obtain m' where
    "deserialize_manager quiet d' (path two_visits) (max_visits two_visits) = Inr (Some m')"
    and "tuples m' = tuples two_visits"
    by blast
  moreover have "tuples two_visits
                 = {(1, 101, [0x61], [0x41], \<lparr>tv_sec = 100, tv_nsec = 5\<rparr>),
                    (1, 102, [0x62], [0x42], \<lparr>tv_sec = 200, tv_nsec = 0\<rparr>)}"
    by (simp add: tuples_def two_visits_def visit_a_def visit_b_def c_string_def)
  moreover have "path two_visits = ''rv.dat''" "max_visits two_visits = 2"
    by (simp_all add: two_visits_def)
  ultimately show ?thesis using h1 h2 h3 h5 by auto
qed

text \<open>
  C5. Loading a file laid out as the format prescribes (any capacity bound stored in it,
  any bytes after the last user), with capacity \<open>mv\<close> and no allocation failing, returns
  a manager of capacity \<open>mv\<close> whose users are the stored users in file order, each with
  exactly the first \<open>mv\<close> of its stored visits in file order; the visits beyond are
  read and dropped, and the users after them are still read correctly.
\<close>

theorem load_keeps_first_max_visits_in_file_order:
  assumes "\<forall>site. \<not> alloc_fails e site"
    and "fits_size_t us"
    and "d p = Some (layout_file capacity_bound us @ rest)"
  shows "\<exists>m. deserialize_manager e d p mv = Inr (Some m)
           \<and> max_visits m = mv
           \<and> map user_id (users m) = map user_id us
           \<and> map visits (users m) = map (\<lambda>u. take mv (visits u)) us"
  using deserialize_layout [where d = d and p = p and mv = mv, OF assms]
  by (simp add: loaded_user_def comp_def)

theorem load_keeps_first_max_visits_in_file_order_witness:
  "fits_size_t two_users_stored
   \<and> (\<exists>m. deserialize_manager quiet (no_files(''rv.dat'' \<mapsto> layout_file 5 two_users_stored))
              ''rv.dat'' 1 = Inr (Some m)
          \<and> max_visits m = 1
          \<and> map user_id (users m) = [1, 2]
          \<and> map visits (users m) = [[visit_b], [visit_a]])"
proof -
  have h1: "\<forall>site. \<not> alloc_fails quiet site" by (simp add: quiet_def)
  have h2: "fits_size_t two_users_stored"
    by (simp add: fits_size_t_def fits_user_def fits_visit_def two_users_stored_def
        visit_a_def visit_b_def)
  have h3: "(no_files(''rv.dat'' \<mapsto> layout_file 5 two_users_stored)) ''rv.dat''
            = Some (layout_file 5 two_users_stored @ [])"
    by simp
  from load_keeps_first_max_visits_in_file_order
         [where d = "no_files(''rv.dat'' \<mapsto> layout_file 5 two_users_stored)"
            and p = "''rv.dat''" and mv = 1, OF h1 h2 h3]
  have "\<exists>m. deserialize_manager quiet (no_files(''rv.dat'' \<mapsto> layout_file 5 two_users_stored))
              ''rv.dat'' 1 = Inr (Some m)
          \<and> max_visits m = 1
          \<and> map user_id (users m) = [1, 2]
          \<and> map visits (users m) = [[visit_b], [visit_a]]"
    by (simp add: two_users_stored_def)
  with h2 show ?thesis by simp
qed

text \<open>
  C6. Adding a visit whose id the user's record already holds returns true and changes
  neither the manager (so neither the count nor the stored URL, text and timestamp) nor
  the file, whatever URL and text are passed.
\<close>

theorem duplicate_add_is_noop:
  assumes "find_user m uid = Some i"
    and "\<exists>v \<in> set (visits (users m ! i)). visit_id v = vid"
  shows "VisitManagerAddVisit e d (Some m) uid vid (Some u') (Some t') = Inr (True, Some m, d)"
  using assms
  by (simp add: VisitManagerAddVisit_def add_visit_def find_or_create_user_def)

theorem duplicate_add_is_noop_witness:
  "find_user two_visits 1 = Some 0
   \<and> (\<exists>v \<in> set (visits (users two_visits ! 0)). visit_id v = 101)
   \<and> VisitManagerAddVisit quiet no_files (Some two_visits) 1 101 (Some [0x7A]) (Some [0x79])
       = Inr (True, Some two_visits, no_files)"
  using duplicate_add_is_noop [of two_visits 1 0 101 quiet no_files "[0x7A]" "[0x79]"]
  by (simp add: two_visits_def find_user_def visit_a_def visit_b_def)

text \<open>
  C7. \<^verbatim>\<open>Delete\<close> on a manager whose string buffers are terminated returns; it returns true
  exactly when the manager and the id list are present, the list is not empty, the user
  has a record and some requested id is the id of a stored visit. On false the manager
  and the file are unchanged. On true, in a record whose visit ids are distinct, the
  visits left are exactly those whose id was not requested (as a multiset), and only that
  record changes.
\<close>

theorem delete_true_iff_some_id_matches:
  assumes "\<forall>m. manager = Some m \<longrightarrow> strings_terminated m"
  shows "\<exists>r manager' d'.
     VisitManagerDelete e d manager uid visitIds = Inr (r, manager', d')
     \<and> (r \<longleftrightarrow> (\<exists>m ids i. manager = Some m \<and> visitIds = Some ids \<and> ids \<noteq> []
                \<and> find_user m uid = Some i
                \<and> (\<exists>x \<in> set ids. x \<in> visit_id ` set (visits (users m ! i)))))
     \<and> (\<not> r \<longrightarrow> manager' = manager \<and> d' = d)
     \<and> (r \<longrightarrow> (\<forall>m ids i. manager = Some m \<and> visitIds = Some ids \<and> find_user m uid = Some i
                   \<and> distinct (map visit_id (visits (users m ! i)))
              \<longrightarrow> (\<exists>vs'. manager' = Some (m\<lparr>users := (users m)[i := (users m ! i)\<lparr>visits := vs'\<rparr>]\<rparr>)
                     \<and> mset vs' = filter_mset (\<lambda>v. visit_id v \<notin> set ids)
                                     (mset (visits (users m ! i))))))"
proof (cases manager)
  case None
  then show ?thesis by (auto simp: VisitManagerDelete_def)
next
  case (Some m)
  note m = this
  show ?thesis
  proof (cases visitIds)
    case None
    with m show ?thesis by (auto simp: VisitManagerDelete_def)
  next
    case (Some ids)
    note ids = this
    show ?thesis
    proof (cases "ids = [] \<or> find_user m uid = None")
      case True
      with m ids show ?thesis by (auto simp: VisitManagerDelete_def)
    next
      case False
      then obtain i where i: "find_user m uid = Some i" and ne: "ids \<noteq> []" by auto
      define user where "user = users m ! i"
      define res where "res = delete_ids ids (visits user) False"
      define m' where "m' = m\<lparr>users := (users m)[i := user\<lparr>visits := fst res\<rparr>]\<rparr>"
      have il: "i < length (users m)"
        using i user_index_Some by (auto simp: find_user_def)
      have found: "snd res \<longleftrightarrow> (\<exists>x \<in> set ids. x \<in> visit_id ` set (visits user))"
        by (simp add: res_def delete_ids_found)
      show ?thesis
      proof (cases "snd res")
        case False
        then have "fst res = visits user" by (simp add: res_def delete_ids_unfound)
        then have "m' = m" using il by (simp add: m'_def user_def)
        with False found m ids i ne show ?thesis
          by (auto simp: VisitManagerDelete_def Let_def user_def [symmetric] res_def [symmetric]
              m'_def [symmetric])
      next
        case True
        have "set (fst res) \<subseteq> set (visits (users m ! i))"
          by (simp add: res_def user_def delete_ids_subset)
        with assms m il have "strings_terminated m'"
          unfolding m'_def user_def by (intro strings_terminated_update) auto
        then obtain d' where d': "serialize_manager e d m' = Inr d'"
          using serialize_manager_defined by blast
        have call: "VisitManagerDelete e d manager uid visitIds = Inr (True, Some m', d')"
          using True m ids i ne d'
          by (simp add: VisitManagerDelete_def Let_def user_def [symmetric] res_def [symmetric]
              m'_def [symmetric])
        have removed: "distinct (map visit_id (visits user))
                       \<Longrightarrow> mset (fst res) = filter_mset (\<lambda>v. visit_id v \<notin> set ids)
                                               (mset (visits user))"
          by (simp add: res_def delete_ids_mset)
        from call True found m ids i ne removed show ?thesis
          by (auto simp: m'_def user_def)
      qed
    qed
  qed
qed

theorem delete_true_iff_some_id_matches_witness:
  "strings_terminated two_visits
   \<and> find_user two_visits 1 = Some 0
   \<and> distinct (map visit_id (visits (users two_visits ! 0)))
   \<and> (\<exists>d'. VisitManagerDelete quiet no_files (Some two_visits) 1 (Some [102, 999])
             = Inr (True, Some (two_visits\<lparr>users :=
                      [\<lparr>user_id = 1, visits = [visit_a], capacity = 2\<rparr>]\<rparr>), d'))
   \<and> VisitManagerDelete quiet no_files (Some two_visits) 1 (Some [999])
       = Inr (False, Some two_visits, no_files)"
  using delete_true_iff_some_id_matches
          [where manager = "Some two_visits" and e = quiet and d = no_files and uid = 1
             and visitIds = "Some [102, 999]"]
    delete_true_iff_some_id_matches
          [where manager = "Some two_visits" and e = quiet and d = no_files and uid = 1
             and visitIds = "Some [999]"]
  by (auto simp: two_visits_def find_user_def visit_a_def visit_b_def strings_terminated_def
      terminated_def swap_pop_def)

text \<open>
  C8. A failed \<^verbatim>\<open>AddVisit\<close> is to leave the set of known users unchanged. When the
  allocation of the visit fails for a user who was unknown, the call returns false and
  the user's empty record stays in the manager.
\<close>

theorem failed_add_registers_user:
  "find_user fresh_manager 7 = None
   \<and> VisitManagerAddVisit (quiet\<lparr>alloc_fails := (\<lambda>site. site = NewVisit)\<rparr>) no_files
        (Some fresh_manager) 7 1 (Some [0x61]) (Some [0x41])
      = Inr (False,
             Some (fresh_manager\<lparr>users := [\<lparr>user_id = 7, visits = [], capacity = 2\<rparr>]\<rparr>),
             no_files)
   \<and> find_user (fresh_manager\<lparr>users := [\<lparr>user_id = 7, visits = [], capacity = 2\<rparr>]\<rparr>) 7
      = Some 0"
  by (simp add: VisitManagerAddVisit_def add_visit_def find_or_create_user_def find_user_def
      fresh_manager_def quiet_def create_user_def create_visit_def)

text \<open>
  C9. \<^verbatim>\<open>Create\<close> is to return a fresh manager whenever the file is malformed. On a file
  that ends after its header (capacity bound 5, user count 1, no user), the
  \<^verbatim>\<open>cleanup\<close> block of the loader reads slot 0 of the array of records, which was never
  assigned.
\<close>

theorem truncated_file_cleanup_reads_unassigned_slot:
  "VisitManagerCreate quiet
     (no_files(''rv.dat'' \<mapsto> [5, 0, 0, 0, 0, 0, 0, 0, 1, 0, 0, 0, 0, 0, 0, 0]))
     ''rv.dat'' 5
   = Inl ReadsDeadSlot"
  by (simp add: VisitManagerCreate_def deserialize_manager_def quiet_def no_files_def
      fread_def read_user_def)

text \<open>
  C10. For a user without record \<^verbatim>\<open>GetRecentVisits\<close> returns \<^verbatim>\<open>NULL\<close> and stores count 0;
  for a user whose record holds no visit it returns the (non-null) array and stores
  count 0. \<^verbatim>\<open>Clear\<close> keeps every record, empties the one of its user, and returns on a
  manager whose string buffers are terminated.
\<close>

theorem unknown_user_null_empty_record_not_null:
  "(find_user m uid = None
      \<longrightarrow> VisitManagerGetRecentVisits e (Some m) uid True = (None, Some 0, Some m))
   \<and> (find_user m uid = Some i \<and> visits (users m ! i) = []
      \<longrightarrow> VisitManagerGetRecentVisits e (Some m) uid True = (Some [], Some 0, Some m))
   \<and> (VisitManagerClear e' d (Some m) uid' = Inr (manager', d')
      \<longrightarrow> (\<exists>m'. manager' = Some m' \<and> (\<forall>w. find_user m' w = find_user m w)
                \<and> (\<forall>k. find_user m uid' = Some k \<longrightarrow> visits (users m' ! k) = [])))
   \<and> (strings_terminated m
      \<longrightarrow> (\<exists>manager' d'. VisitManagerClear e' d (Some m) uid' = Inr (manager', d')))"
proof (intro conjI impI)
  assume "find_user m uid = None"
  then show "VisitManagerGetRecentVisits e (Some m) uid True = (None, Some 0, Some m)"
    by (simp add: VisitManagerGetRecentVisits_def)
next
  assume a: "find_user m uid = Some i \<and> visits (users m ! i) = []"
  then have "i < length (users m)"
    using user_index_Some by (auto simp: find_user_def)
  moreover have "sort_visits e [] = []"
    using sort_visits_length [of e "[]"] by simp
  moreover have same: "m\<lparr>users := (users m)[i := (users m ! i)\<lparr>visits := []\<rparr>]\<rparr> = m"
  proof -
    have "(users m ! i)\<lparr>visits := visits (users m ! i)\<rparr> = users m ! i" by simp
    with a have "(users m ! i)\<lparr>visits := []\<rparr> = users m ! i" by simp
    then show ?thesis by simp
  qed
  ultimately show "VisitManagerGetRecentVisits e (Some m) uid True = (Some [], Some 0, Some m)"
    using a by (simp add: VisitManagerGetRecentVisits_def Let_def)
next
  assume c: "VisitManagerClear e' d (Some m) uid' = Inr (manager', d')"
  show "\<exists>m'. manager' = Some m' \<and> (\<forall>w. find_user m' w = find_user m w)
          \<and> (\<forall>k. find_user m uid' = Some k \<longrightarrow> visits (users m' ! k) = [])"
  proof (cases "find_user m uid'")
    case None
    with c show ?thesis by (auto simp: VisitManagerClear_def)
  next
    case (Some k)
    then have kl: "k < length (users m)"
      using user_index_Some by (auto simp: find_user_def)
    define m' where "m' = m\<lparr>users := (users m)[k := (users m ! k)\<lparr>visits := []\<rparr>]\<rparr>"
    from c Some have "manager' = Some m'"
      by (auto simp: VisitManagerClear_def Let_def m'_def split: sum.splits)
    moreover have "\<forall>w. find_user m' w = find_user m w"
      using kl by (simp add: find_user_def m'_def user_index_update_other)
    moreover have "visits (users m' ! k) = []"
      using kl by (simp add: m'_def)
    ultimately show ?thesis using Some by simp
  qed
next
  assume t: "strings_terminated m"
  show "\<exists>manager' d'. VisitManagerClear e' d (Some m) uid' = Inr (manager', d')"
  proof (cases "find_user m uid'")
    case None
    then show ?thesis by (simp add: VisitManagerClear_def)
  next
    case (Some k)
    then have kl: "k < length (users m)"
      using user_index_Some by (auto simp: find_user_def)
    have "strings_terminated (m\<lparr>users := (users m)[k := (users m ! k)\<lparr>visits := []\<rparr>]\<rparr>)"
      using t kl by (intro strings_terminated_update) auto
    then obtain d' where
      "serialize_manager e' d (m\<lparr>users := (users m)[k := (users m ! k)\<lparr>visits := []\<rparr>]\<rparr>) = Inr d'"
      using serialize_manager_defined by blast
    with Some show ?thesis by (simp add: VisitManagerClear_def Let_def)
  qed
qed

theorem unknown_user_null_empty_record_not_null_witness:
  "find_user two_visits 9 = None
   \<and> VisitManagerGetRecentVisits quiet (Some two_visits) 9 True = (None, Some 0, Some two_visits)
   \<and> find_user emptied_record 1 = Some 0
   \<and> visits (users emptied_record ! 0) = []
   \<and> VisitManagerGetRecentVisits quiet (Some emptied_record) 1 True
       = (Some [], Some 0, Some emptied_record)
   \<and> strings_terminated two_visits
   \<and> (\<exists>d'. VisitManagerClear quiet no_files (Some two_visits) 1 = Inr (Some emptied_record, d'))"
  using unknown_user_null_empty_record_not_null
          [where m = two_visits and uid = 9 and e = quiet and e' = quiet and d = no_files
             and uid' = 1]
    unknown_user_null_empty_record_not_null
          [where m = emptied_record and uid = 1 and i = 0 and e = quiet]
  by (auto simp: two_visits_def emptied_record_def find_user_def visit_a_def visit_b_def
      strings_terminated_def terminated_def VisitManagerClear_def Let_def split: sum.splits)

end
